theory Spec2Isabelle
  imports Main "HOL-Library.Word" "HOL-Library.Multiset"
begin

unbundle bit_operations_syntax

section \<open>Data model of \<open>priority_queue.hpp\<close>\<close>

text \<open>
  A sequential (single-thread) embedding of \<open>lockfree::_priority_queue\<close>. Pointers are
  the 64-bit integers (\<open>uintptr_t\<close>) the code casts them to, so that the low-bit tags can
  be modelled bit for bit. \<open>K\<close> is instantiated with a signed integer key, \<open>T *\<close> is a
  pointer like any other. Atomics are read and written in program order;
  \<open>compare_exchange_weak\<close> is modelled without spurious failure, like
  \<open>compare_exchange_strong\<close>.
\<close>

type_synonym ptr = "64 word"

text \<open>\<open>struct Node\<close>: \<open>val\<close> is the field \<open>value\<close>, \<open>nxt\<close> the field \<open>next\<close>.\<close>

record node =
  key :: int
  counter :: "32 word"
  val :: ptr
  nxt :: ptr

text \<open>
  The queue object (\<open>free_list\<close>, \<open>head\<close>, \<open>tail\<close>) together with the memory its nodes
  live in. \<open>heap\<close> maps the address of every allocated node to its contents.

  Modelled from the spec: the allocator behind \<open>new Node\<close> is an external collaborator.
  \<open>fresh\<close> lists the blocks it will hand out, in order: the address and the
  (indeterminate) contents of the raw memory. When the list is used up, \<open>new\<close> fails.
\<close>

record pq =
  heap :: "ptr \<Rightarrow> node option"
  free_list :: ptr
  head :: ptr
  tail :: ptr
  fresh :: "(ptr \<times> node) list"

subsection \<open>Tagged pointers\<close>

definition get_marked :: "ptr \<Rightarrow> ptr" where
  "get_marked i = i OR 1"

definition get_unmarked :: "ptr \<Rightarrow> ptr" where
  "get_unmarked i = i AND (- 1 - 1)"

definition is_marked :: "ptr \<Rightarrow> bool" where
  "is_marked i = (i AND 1 \<noteq> 0)"

subsection \<open>Outcomes, memory cells and the primitive accesses\<close>

text \<open>
  Every operation returns either a fault or its result with the new state. \<open>BadAlloc\<close> is
  \<open>std::bad_alloc\<close>, \<open>BadDeref\<close> a dereference of an address that holds no node (null, a
  tagged pointer), and \<open>OutOfFuel\<close> says that the bound on loop iterations and call depth
  was too small.
\<close>

datatype fault = BadAlloc | BadDeref | OutOfFuel

type_synonym 'a result = "fault + 'a \<times> pq"

definition bnd :: "'a result \<Rightarrow> ('a \<Rightarrow> pq \<Rightarrow> 'b result) \<Rightarrow> 'b result" where
  "bnd r f = (case r of Inl e \<Rightarrow> Inl e | Inr (x, s) \<Rightarrow> f x s)"

text \<open>The pointer-valued atomics: \<open>head\<close>, \<open>free_list\<close>, a node's \<open>next\<close>, a node's \<open>value\<close>.\<close>

datatype cell = Head | FreeList | Next ptr | Value ptr

definition load :: "cell \<Rightarrow> pq \<Rightarrow> ptr result" where
  "load c s = (case c of
      Head \<Rightarrow> Inr (head s, s)
    | FreeList \<Rightarrow> Inr (free_list s, s)
    | Next p \<Rightarrow> (case heap s p of None \<Rightarrow> Inl BadDeref | Some nd \<Rightarrow> Inr (nxt nd, s))
    | Value p \<Rightarrow> (case heap s p of None \<Rightarrow> Inl BadDeref | Some nd \<Rightarrow> Inr (val nd, s)))"

definition store :: "cell \<Rightarrow> ptr \<Rightarrow> pq \<Rightarrow> unit result" where
  "store c v s = (case c of
      Head \<Rightarrow> Inr ((), s\<lparr>head := v\<rparr>)
    | FreeList \<Rightarrow> Inr ((), s\<lparr>free_list := v\<rparr>)
    | Next p \<Rightarrow> (case heap s p of None \<Rightarrow> Inl BadDeref
        | Some nd \<Rightarrow> Inr ((), s\<lparr>heap := (heap s)(p \<mapsto> nd\<lparr>nxt := v\<rparr>)\<rparr>))
    | Value p \<Rightarrow> (case heap s p of None \<Rightarrow> Inl BadDeref
        | Some nd \<Rightarrow> Inr ((), s\<lparr>heap := (heap s)(p \<mapsto> nd\<lparr>val := v\<rparr>)\<rparr>)))"

text \<open>
  \<open>compare_exchange_strong\<close> and \<open>compare_exchange_weak\<close>: the flag, and the value left in
  the caller's \<open>expected\<close> variable.
\<close>

definition compare_exchange :: "cell \<Rightarrow> ptr \<Rightarrow> ptr \<Rightarrow> pq \<Rightarrow> (bool \<times> ptr) result" where
  "compare_exchange c expected desired s =
     bnd (load c s) (\<lambda>cur s.
       if cur = expected then bnd (store c desired s) (\<lambda>_ s. Inr ((True, expected), s))
       else Inr ((False, cur), s))"

definition load_counter :: "ptr \<Rightarrow> pq \<Rightarrow> (32 word) result" where
  "load_counter p s = (case heap s p of None \<Rightarrow> Inl BadDeref | Some nd \<Rightarrow> Inr (counter nd, s))"

definition store_counter :: "ptr \<Rightarrow> 32 word \<Rightarrow> pq \<Rightarrow> unit result" where
  "store_counter p c s = (case heap s p of None \<Rightarrow> Inl BadDeref
     | Some nd \<Rightarrow> Inr ((), s\<lparr>heap := (heap s)(p \<mapsto> nd\<lparr>counter := c\<rparr>)\<rparr>))"

text \<open>\<open>p->counter += 1\<close>\<close>

definition incr_counter :: "ptr \<Rightarrow> pq \<Rightarrow> unit result" where
  "incr_counter p s = bnd (load_counter p s) (\<lambda>c s. store_counter p (c + 1) s)"

definition compare_exchange_counter ::
  "ptr \<Rightarrow> 32 word \<Rightarrow> 32 word \<Rightarrow> pq \<Rightarrow> (bool \<times> 32 word) result" where
  "compare_exchange_counter p expected desired s =
     bnd (load_counter p s) (\<lambda>cur s.
       if cur = expected then bnd (store_counter p desired s) (\<lambda>_ s. Inr ((True, expected), s))
       else Inr ((False, cur), s))"

definition load_key :: "ptr \<Rightarrow> pq \<Rightarrow> int result" where
  "load_key p s = (case heap s p of None \<Rightarrow> Inl BadDeref | Some nd \<Rightarrow> Inr (key nd, s))"

definition store_key :: "ptr \<Rightarrow> int \<Rightarrow> pq \<Rightarrow> unit result" where
  "store_key p k s = (case heap s p of None \<Rightarrow> Inl BadDeref
     | Some nd \<Rightarrow> Inr ((), s\<lparr>heap := (heap s)(p \<mapsto> nd\<lparr>key := k\<rparr>)\<rparr>))"

text \<open>
  \<open>new Node(key, value)\<close> initialises all four fields; \<open>new Node()\<close> initialises
  \<open>counter\<close> and \<open>next\<close> only and leaves \<open>key\<close> and \<open>value\<close> as the raw memory had them.
\<close>

definition new_Node :: "int \<Rightarrow> ptr \<Rightarrow> pq \<Rightarrow> ptr result" where
  "new_Node k v s = (case fresh s of
      [] \<Rightarrow> Inl BadAlloc
    | (p, raw) # rest \<Rightarrow>
        Inr (p, s\<lparr>heap := (heap s)(p \<mapsto> \<lparr>key = k, counter = 1, val = v, nxt = 0\<rparr>),
                  fresh := rest\<rparr>))"

definition new_Node0 :: "pq \<Rightarrow> ptr result" where
  "new_Node0 s = (case fresh s of
      [] \<Rightarrow> Inl BadAlloc
    | (p, raw) # rest \<Rightarrow>
        Inr (p, s\<lparr>heap := (heap s)(p \<mapsto> raw\<lparr>counter := 1, nxt := 0\<rparr>), fresh := rest\<rparr>))"

subsection \<open>Reference counting: \<open>reclaim\<close>, \<open>release\<close>, \<open>safe_read\<close>\<close>

text \<open>
  Loops and recursion take a bound \<open>n\<close>, lowered at every call and every iteration.
\<close>

fun reclaim :: "nat \<Rightarrow> ptr \<Rightarrow> pq \<Rightarrow> unit result" where
  "reclaim 0 node s = Inl OutOfFuel"
| "reclaim (Suc n) node s =
     bnd (load FreeList s) (\<lambda>free_ptr s.
     bnd (store (Next node) free_ptr s) (\<lambda>_ s.
     bnd (compare_exchange FreeList free_ptr node s) (\<lambda>(ok, free_ptr) s.
       if ok then Inr ((), s) else reclaim n node s)))"

text \<open>The \<open>do ... while\<close> of \<open>release\<close> that decrements the counter; returns \<open>new_counter\<close>.\<close>

fun release_decrement :: "nat \<Rightarrow> ptr \<Rightarrow> pq \<Rightarrow> (32 word) result" where
  "release_decrement 0 node s = Inl OutOfFuel"
| "release_decrement (Suc n) node s =
     bnd (load_counter node s) (\<lambda>old_counter s.
       let new_counter = old_counter - 1 in
       bnd (compare_exchange_counter node old_counter new_counter s) (\<lambda>(ok, old_counter) s.
         if ok then Inr (new_counter, s) else release_decrement n node s))"

fun release :: "nat \<Rightarrow> ptr \<Rightarrow> pq \<Rightarrow> unit result" where
  "release 0 node s = Inl OutOfFuel"
| "release (Suc n) node s =
     (if node = 0 then Inr ((), s)
      else
        bnd (release_decrement n node s) (\<lambda>new_counter s.
          if new_counter \<noteq> 0 then Inr ((), s)
          else
            bnd (load (Next node) s) (\<lambda>next_ptr s.
            bnd (release n (get_unmarked next_ptr) s) (\<lambda>_ s.
              reclaim n node s))))"

fun safe_read :: "nat \<Rightarrow> cell \<Rightarrow> pq \<Rightarrow> ptr result" where
  "safe_read 0 c s = Inl OutOfFuel"
| "safe_read (Suc n) c s =
     bnd (load c s) (\<lambda>read s.
       if read = 0 then Inr (0, s)
       else if is_marked read then Inr (0, s)
       else
         bnd (incr_counter read s) (\<lambda>_ s.
         bnd (load c s) (\<lambda>cur s.
           if read = cur then Inr (read, s)
           else bnd (release n read s) (\<lambda>_ s. safe_read n c s))))"

subsection \<open>\<open>get_new_node\<close>\<close>

fun get_new_node :: "nat \<Rightarrow> ptr \<Rightarrow> int \<Rightarrow> pq \<Rightarrow> ptr result" where
  "get_new_node 0 v k s = Inl OutOfFuel"
| "get_new_node (Suc n) v k s =
     bnd (safe_read n FreeList s) (\<lambda>new_node s.
       if new_node = 0 then new_Node k v s
       else
         bnd (load (Next new_node) s) (\<lambda>free_next s.
         bnd (compare_exchange FreeList new_node free_next s) (\<lambda>(ok, free_ptr) s.
           if ok then
             bnd (incr_counter new_node s) (\<lambda>_ s.
             bnd (store_key new_node k s) (\<lambda>_ s.
             bnd (store (Value new_node) v s) (\<lambda>_ s.
               Inr (new_node, s))))
           else bnd (release n new_node s) (\<lambda>_ s. get_new_node n v k s))))"

subsection \<open>\<open>help_delete\<close> and \<open>read_next\<close>\<close>

text \<open>The first loop of \<open>help_delete\<close>: make sure the link is marked; returns \<open>next\<close>.\<close>

fun mark_link :: "nat \<Rightarrow> ptr \<Rightarrow> pq \<Rightarrow> ptr result" where
  "mark_link 0 node s = Inl OutOfFuel"
| "mark_link (Suc n) node s =
     bnd (load (Next node) s) (\<lambda>next_ptr s.
       if is_marked next_ptr then Inr (next_ptr, s)
       else
         bnd (compare_exchange (Next node) next_ptr (get_marked next_ptr) s) (\<lambda>(ok, next_ptr) s.
           if ok then Inr (next_ptr, s) else mark_link n node s))"

text \<open>
  \<open>help_delete_search\<close> is the second \<open>do ... while\<close> of \<open>help_delete\<close> and returns
  \<open>(prev, node_tmp, assigned)\<close>; \<open>help_delete_walk\<close> is the \<open>while\<close> inside it;
  \<open>read_next_loop\<close> is the \<open>while\<close> of \<open>read_next\<close>.
\<close>

function help_delete :: "nat \<Rightarrow> ptr \<Rightarrow> pq \<Rightarrow> ptr result"
  and help_delete_search ::
    "nat \<Rightarrow> ptr \<Rightarrow> ptr \<Rightarrow> ptr \<Rightarrow> ptr \<Rightarrow> pq \<Rightarrow> (ptr \<times> ptr \<times> bool) result"
  and help_delete_walk :: "nat \<Rightarrow> ptr \<Rightarrow> ptr \<Rightarrow> ptr \<Rightarrow> pq \<Rightarrow> (ptr \<times> ptr) result"
  and read_next :: "nat \<Rightarrow> ptr \<Rightarrow> pq \<Rightarrow> ptr result"
  and read_next_loop :: "nat \<Rightarrow> ptr \<Rightarrow> ptr \<Rightarrow> pq \<Rightarrow> ptr result"
where
  "help_delete 0 node s = Inl OutOfFuel"
| "help_delete (Suc n) node s =
     bnd (mark_link n node s) (\<lambda>next_ptr s.
       let next_ptr = get_unmarked next_ptr in
       if next_ptr = 0 then safe_read n Head s
       else
         bnd (help_delete_search n node next_ptr 0 0 s) (\<lambda>(prev, node_tmp, assigned) s.
         bnd (store (Next node) 1 s) (\<lambda>_ s.
         bnd (if assigned then release n node s else Inr ((), s)) (\<lambda>_ s.
         bnd (release n node_tmp s) (\<lambda>_ s.
           Inr (prev, s))))))"
| "help_delete_search 0 node next_ptr prev node_tmp s = Inl OutOfFuel"
| "help_delete_search (Suc n) node next_ptr prev node_tmp s =
     bnd (release n prev s) (\<lambda>_ s.
     bnd (release n node_tmp s) (\<lambda>_ s.
     bnd (safe_read n Head s) (\<lambda>prev s.
     bnd (read_next n prev s) (\<lambda>node_tmp s.
     bnd (help_delete_walk n node prev node_tmp s) (\<lambda>(prev, node_tmp) s.
       if node_tmp = node then
         bnd (compare_exchange (Next prev) node next_ptr s) (\<lambda>(assigned, cxw) s.
           if \<not> assigned then help_delete_search n node next_ptr prev node_tmp s
           else Inr ((prev, node_tmp, True), s))
       else Inr ((prev, node_tmp, False), s))))))"
| "help_delete_walk 0 node prev node_tmp s = Inl OutOfFuel"
| "help_delete_walk (Suc n) node prev node_tmp s =
     (if node_tmp \<noteq> node \<and> node_tmp \<noteq> tail s then
        bnd (load_key node s) (\<lambda>node_key s.
        bnd (load_key node_tmp s) (\<lambda>tmp_key s.
          if \<not> (node_key > tmp_key) then
            bnd (release n prev s) (\<lambda>_ s.
            bnd (read_next n node_tmp s) (\<lambda>next_tmp s.
              help_delete_walk n node node_tmp next_tmp s))
          else Inr ((prev, node_tmp), s)))
      else Inr ((prev, node_tmp), s))"
| "read_next 0 node s = Inl OutOfFuel"
| "read_next (Suc n) node s =
     bnd (safe_read n (Next node) s) (\<lambda>next_ptr s. read_next_loop n node next_ptr s)"
| "read_next_loop 0 node next_ptr s = Inl OutOfFuel"
| "read_next_loop (Suc n) node next_ptr s =
     (if next_ptr = 0 then
        bnd (help_delete n node s) (\<lambda>node s.
        bnd (safe_read n (Next node) s) (\<lambda>next_ptr s.
        bnd (release n node s) (\<lambda>_ s.
          read_next_loop n node next_ptr s)))
      else Inr (next_ptr, s))"
  by pat_completeness auto

termination
  by (relation "measure (\<lambda>x. case x of
        Inl (Inl (n, _)) \<Rightarrow> n
      | Inl (Inr (n, _)) \<Rightarrow> n
      | Inr (Inl (n, _)) \<Rightarrow> n
      | Inr (Inr (Inl (n, _))) \<Rightarrow> n
      | Inr (Inr (Inr (n, _))) \<Rightarrow> n)") simp_all

subsection \<open>The public operations\<close>

text \<open>The inner \<open>while\<close> of \<open>insert\<close>; returns \<open>(prev, node)\<close>.\<close>

fun insert_walk :: "nat \<Rightarrow> int \<Rightarrow> ptr \<Rightarrow> ptr \<Rightarrow> pq \<Rightarrow> (ptr \<times> ptr) result" where
  "insert_walk 0 k prev node s = Inl OutOfFuel"
| "insert_walk (Suc n) k prev node s =
     bnd (load_key node s) (\<lambda>node_key s.
       if \<not> (k > node_key) \<and> node \<noteq> tail s then
         bnd (release n prev s) (\<lambda>_ s.
         bnd (read_next n node s) (\<lambda>next_ptr s.
           insert_walk n k node next_ptr s))
       else Inr ((prev, node), s))"

text \<open>The \<open>do ... while ( !inserted )\<close> of \<open>insert\<close>.\<close>

fun insert_loop :: "nat \<Rightarrow> int \<Rightarrow> ptr \<Rightarrow> pq \<Rightarrow> unit result" where
  "insert_loop 0 k new_node s = Inl OutOfFuel"
| "insert_loop (Suc n) k new_node s =
     bnd (safe_read n Head s) (\<lambda>prev s.
     bnd (read_next n prev s) (\<lambda>node s.
     bnd (insert_walk n k prev node s) (\<lambda>(prev, node) s.
     bnd (store (Next new_node) node s) (\<lambda>_ s.
     bnd (compare_exchange (Next prev) node new_node s) (\<lambda>(inserted, node_cxw) s.
     bnd (release n prev s) (\<lambda>_ s.
     bnd (release n node s) (\<lambda>_ s.
       if \<not> inserted then insert_loop n k new_node s else Inr ((), s))))))))"

definition insert_pq :: "nat \<Rightarrow> ptr \<Rightarrow> int \<Rightarrow> pq \<Rightarrow> unit result" where
  "insert_pq n v k s = bnd (get_new_node n v k s) (\<lambda>new_node s. insert_loop n k new_node s)"

text \<open>
  \<open>pop(K key)\<close> has no embedding. Its line 168, \<open>ret = get_unmarked( ret_node->value )\<close>,
  hands the \<open>std::atomic< T * >\<close> itself to the template \<open>get_unmarked( U * )\<close>; no \<open>U\<close> can be
  deduced from a class type, so the member cannot be instantiated and no call of it has a
  run. The overload \<open>pop()\<close> reads the field with \<open>.load( )\<close> at line 186 and is embedded
  below.

  The \<open>while\<close> loop of \<open>pop()\<close>. \<open>Some\<close> is a value returned from inside the loop; \<open>None\<close>
  says that the loop ended because \<open>read_next\<close> returned null.
\<close>

fun pop_loop :: "nat \<Rightarrow> pq \<Rightarrow> (ptr option) result" where
  "pop_loop 0 s = Inl OutOfFuel"
| "pop_loop (Suc n) s =
     bnd (load Head s) (\<lambda>h s.
     bnd (read_next n h s) (\<lambda>ret_node s.
       if ret_node = 0 then Inr (None, s)
       else if ret_node = tail s then
         bnd (release n ret_node s) (\<lambda>_ s. Inr (Some 0, s))
       else
         bnd (load (Value ret_node) s) (\<lambda>v s.
           let ret = get_unmarked v in
           bnd (compare_exchange (Value ret_node) ret (get_marked ret) s) (\<lambda>(ok, cxw) s.
             if ok then bnd (release n ret_node s) (\<lambda>_ s. Inr (Some ret, s))
             else
               bnd (help_delete n ret_node s) (\<lambda>prev s.
               bnd (release n prev s) (\<lambda>_ s.
               bnd (release n ret_node s) (\<lambda>_ s.
                 pop_loop n s)))))))"

text \<open>\<open>pop()\<close>: after the loop, \<open>return nullptr\<close>.\<close>

definition pop :: "nat \<Rightarrow> pq \<Rightarrow> ptr result" where
  "pop n s =
     bnd (pop_loop n s) (\<lambda>r s. case r of Some ret \<Rightarrow> Inr (ret, s) | None \<Rightarrow> Inr (0, s))"

text \<open>
  \<open>reserve(size)\<close>. The loop variable \<open>std::size_t i\<close> is declared without an initialiser;
  the indeterminate value it starts from is the parameter \<open>i\<close>.
\<close>

fun reserve :: "nat \<Rightarrow> 64 word \<Rightarrow> 64 word \<Rightarrow> pq \<Rightarrow> unit result" where
  "reserve 0 i size_arg s = Inl OutOfFuel"
| "reserve (Suc n) i size_arg s =
     (if i < size_arg then
        bnd (new_Node0 s) (\<lambda>p s.
        bnd (release n p s) (\<lambda>_ s.
          reserve n (i + 1) size_arg s))
      else Inr ((), s))"

text \<open>
  The constructor of \<open>priority_queue\<close> for a fundamental key type, here a 32-bit \<open>int\<close>:
  the tail sentinel carries \<open>numeric_limits::min()\<close>, the head sentinel
  \<open>numeric_limits::max()\<close>. It is given the allocator's supply of blocks.
\<close>

definition key_min :: int where
  "key_min = - (2 ^ 31)"

definition key_max :: int where
  "key_max = 2 ^ 31 - 1"

definition priority_queue :: "(ptr \<times> node) list \<Rightarrow> unit result" where
  "priority_queue supply =
     bnd (store FreeList 0 \<lparr>heap = \<lambda>_. None, free_list = 0, head = 0, tail = 0, fresh = supply\<rparr>)
       (\<lambda>_ s.
     bnd (new_Node key_min 0 s) (\<lambda>t s.
     bnd (Inr ((), s\<lparr>tail := t\<rparr>)) (\<lambda>_ s.
     bnd (new_Node key_max 0 s) (\<lambda>new_head s.
     bnd (store (Next new_head) (tail s) s) (\<lambda>_ s.
       store Head new_head s)))))"

section \<open>Quiescent states\<close>

text \<open>
  Between two operations of a single thread the memory has a fixed shape, described here
  for a given list \<open>ps\<close> of the nodes linked between the sentinels, in list order, and a
  given list \<open>fs\<close> of the nodes on the free list, in stack order.
\<close>

definition key_of :: "pq \<Rightarrow> ptr \<Rightarrow> int" where
  "key_of s p = key (the (heap s p))"

definition val_of :: "pq \<Rightarrow> ptr \<Rightarrow> ptr" where
  "val_of s p = val (the (heap s p))"

definition nxt_of :: "pq \<Rightarrow> ptr \<Rightarrow> ptr" where
  "nxt_of s p = nxt (the (heap s p))"

definition counter_of :: "pq \<Rightarrow> ptr \<Rightarrow> 32 word" where
  "counter_of s p = counter (the (heap s p))"

text \<open>\<open>linked s a b\<close>: \<open>a\<close> is a node and \<open>a->next\<close> is exactly \<open>b\<close> (so the link is not marked).\<close>

definition linked :: "pq \<Rightarrow> ptr \<Rightarrow> ptr \<Rightarrow> bool" where
  "linked s a b = (case heap s a of None \<Rightarrow> False | Some nd \<Rightarrow> nxt nd = b)"

text \<open>
  A node in the list is counted once for the link that leads to it, and once more if
  \<open>get_new_node\<close> took it from the free list.
\<close>

definition counted :: "pq \<Rightarrow> ptr \<Rightarrow> bool" where
  "counted s p = (case heap s p of None \<Rightarrow> False | Some nd \<Rightarrow> counter nd = 1 \<or> counter nd = 2)"

definition uncounted :: "pq \<Rightarrow> ptr \<Rightarrow> bool" where
  "uncounted s p = (case heap s p of None \<Rightarrow> False | Some nd \<Rightarrow> counter nd = 0)"

definition pq_inv :: "pq \<Rightarrow> ptr list \<Rightarrow> ptr list \<Rightarrow> bool" where
  "pq_inv s ps fs \<longleftrightarrow>
     distinct (head s # ps @ tail s # fs @ map fst (fresh s)) \<and>
     (\<forall>p \<in> set (head s # ps @ tail s # fs @ map fst (fresh s)). p \<noteq> 0 \<and> \<not> is_marked p) \<and>
     successively (linked s) (head s # ps @ [tail s, 0]) \<and>
     (\<forall>p \<in> set (head s # ps @ [tail s]). counted s p) \<and>
     free_list s = hd (fs @ [0]) \<and>
     successively (linked s) (fs @ [0]) \<and>
     (\<forall>p \<in> set fs. uncounted s p) \<and>
     (\<forall>p \<in> set (map fst (fresh s)). heap s p = None) \<and>
     sorted_wrt (\<ge>) (map (key_of s) ps)"

text \<open>The entries of the list as (key, value) pairs; an entry is live until its value is marked.\<close>

definition entries :: "pq \<Rightarrow> ptr list \<Rightarrow> (int \<times> ptr) list" where
  "entries s ps = map (\<lambda>p. (key_of s p, val_of s p)) ps"

definition live :: "(int \<times> ptr) list \<Rightarrow> (int \<times> ptr) list" where
  "live es = filter (\<lambda>e. \<not> is_marked (snd e)) es"

text \<open>State changes that the operations are built from.\<close>

definition adj :: "ptr \<Rightarrow> 32 word \<Rightarrow> pq \<Rightarrow> pq" where
  "adj p d s =
     s\<lparr>heap := (heap s)(p := map_option (\<lambda>nd. nd\<lparr>counter := counter nd + d\<rparr>) (heap s p))\<rparr>"

definition set_nxt :: "ptr \<Rightarrow> ptr \<Rightarrow> pq \<Rightarrow> pq" where
  "set_nxt p v s = s\<lparr>heap := (heap s)(p := map_option (\<lambda>nd. nd\<lparr>nxt := v\<rparr>) (heap s p))\<rparr>"

definition set_val :: "ptr \<Rightarrow> ptr \<Rightarrow> pq \<Rightarrow> pq" where
  "set_val p v s = s\<lparr>heap := (heap s)(p := map_option (\<lambda>nd. nd\<lparr>val := v\<rparr>) (heap s p))\<rparr>"

definition set_key :: "ptr \<Rightarrow> int \<Rightarrow> pq \<Rightarrow> pq" where
  "set_key p k s = s\<lparr>heap := (heap s)(p := map_option (\<lambda>nd. nd\<lparr>key := k\<rparr>) (heap s p))\<rparr>"

text \<open>What a cell holds, and whether reading it dereferences a node that exists.\<close>

definition cell_val :: "pq \<Rightarrow> cell \<Rightarrow> ptr" where
  "cell_val s c = (case c of Head \<Rightarrow> head s | FreeList \<Rightarrow> free_list s
     | Next p \<Rightarrow> nxt_of s p | Value p \<Rightarrow> val_of s p)"

definition cell_ok :: "pq \<Rightarrow> cell \<Rightarrow> bool" where
  "cell_ok s c = (case c of Head \<Rightarrow> True | FreeList \<Rightarrow> True
     | Next p \<Rightarrow> heap s p \<noteq> None | Value p \<Rightarrow> heap s p \<noteq> None)"

text \<open>What the operations do to a quiescent state, and to the list of its entries.\<close>

definition unlink_first :: "pq \<Rightarrow> pq" where
  "unlink_first s =
     (let x = nxt_of s (head s); s1 = set_nxt x 1 (set_nxt (head s) (nxt_of s x) s) in
      if counter_of s x = 1 then (set_nxt x (free_list s) (adj x (- 1) s1))\<lparr>free_list := x\<rparr>
      else adj x (- 1) s1)"

fun abs_pop :: "(int \<times> ptr) list \<Rightarrow> ptr \<times> (int \<times> ptr) list" where
  "abs_pop [] = (0, [])"
| "abs_pop ((k, v) # es) = (if is_marked v then abs_pop es else (v, (k, get_marked v) # es))"

definition same_sentinels :: "pq \<Rightarrow> pq \<Rightarrow> bool" where
  "same_sentinels s s' \<longleftrightarrow>
     head s' = head s \<and> tail s' = tail s \<and>
     key_of s' (head s) = key_of s (head s) \<and> key_of s' (tail s) = key_of s (tail s)"

definition abs_insert :: "int \<Rightarrow> ptr \<Rightarrow> (int \<times> ptr) list \<Rightarrow> (int \<times> ptr) list" where
  "abs_insert k v es = takeWhile (\<lambda>e. k \<le> fst e) es @ (k, v) # dropWhile (\<lambda>e. k \<le> fst e) es"

definition allocated :: "ptr \<Rightarrow> ptr \<Rightarrow> int \<Rightarrow> pq \<Rightarrow> pq" where
  "allocated p v k s =
     s\<lparr>heap := (heap s)(p \<mapsto> \<lparr>key = k, counter = 1, val = v, nxt = 0\<rparr>), fresh := tl (fresh s)\<rparr>"

definition recycled :: "ptr \<Rightarrow> ptr \<Rightarrow> int \<Rightarrow> pq \<Rightarrow> pq" where
  "recycled f v k s = adj f 2 (set_val f v (set_key f k (s\<lparr>free_list := nxt_of s f\<rparr>)))"

section \<open>Example memory\<close>

text \<open>
  An allocator supply of six 32-byte blocks whose raw contents are all zero bits, and the
  queue that the constructor builds from it.
\<close>

definition zero_node :: node where
  "zero_node = \<lparr>key = 0, counter = 0, val = 0, nxt = 0\<rparr>"

definition example_supply :: "(ptr \<times> node) list" where
  "example_supply = map (\<lambda>p. (p, zero_node)) [32, 64, 96, 128, 160, 192]"

definition example_empty :: pq where
  "example_empty =
     \<lparr>heap = (\<lambda>_. None)
        (32 \<mapsto> \<lparr>key = key_min, counter = 1, val = 0, nxt = 0\<rparr>,
         64 \<mapsto> \<lparr>key = key_max, counter = 1, val = 0, nxt = 32\<rparr>),
      free_list = 0, head = 64, tail = 32,
      fresh = map (\<lambda>p. (p, zero_node)) [96, 128, 160, 192]\<rparr>"

fun insert_all :: "nat \<Rightarrow> (ptr \<times> int) list \<Rightarrow> pq \<Rightarrow> unit result" where
  "insert_all n [] s = Inr ((), s)"
| "insert_all n ((v, k) # xs) s = bnd (insert_pq n v k s) (\<lambda>_ s. insert_all n xs s)"

fun drain :: "nat \<Rightarrow> pq \<Rightarrow> (ptr list) result" where
  "drain 0 s = Inl OutOfFuel"
| "drain (Suc n) s =
     bnd (pop n s) (\<lambda>item s.
       if item = 0 then Inr ([], s)
       else bnd (drain n s) (\<lambda>items s. Inr (item # items, s)))"

definition insert_then_drain :: "(ptr \<times> node) list \<Rightarrow> nat \<Rightarrow> (ptr \<times> int) list \<Rightarrow> (ptr list) result" where
  "insert_then_drain supply n xs =
     bnd (priority_queue supply) (\<lambda>_ s.
     bnd (insert_all n xs s) (\<lambda>_ s.
       drain n s))"

definition supply_ok :: "(ptr \<times> node) list \<Rightarrow> bool" where
  "supply_ok supply \<longleftrightarrow>
     distinct (map fst supply) \<and> (\<forall>p \<in> set (map fst supply). p \<noteq> 0 \<and> \<not> is_marked p)"

definition insert_entries :: "(int \<times> ptr) list \<Rightarrow> (ptr \<times> int) list \<Rightarrow> (int \<times> ptr) list" where
  "insert_entries es xs = foldl (\<lambda>es (v, k). abs_insert k v es) es xs"

definition payloads_ok :: "(ptr \<times> int) list \<Rightarrow> bool" where
  "payloads_ok xs \<longleftrightarrow> (\<forall>(v, k) \<in> set xs. v \<noteq> 0 \<and> \<not> is_marked v)"

definition example_one :: pq where
  "example_one =
     \<lparr>heap = (\<lambda>_. None)
        (32 \<mapsto> \<lparr>key = key_min, counter = 1, val = 0, nxt = 0\<rparr>,
         64 \<mapsto> \<lparr>key = key_max, counter = 1, val = 0, nxt = 96\<rparr>,
         96 \<mapsto> \<lparr>key = 5, counter = 1, val = 4096, nxt = 32\<rparr>),
      free_list = 0, head = 64, tail = 32,
      fresh = map (\<lambda>p. (p, zero_node)) [128, 160, 192]\<rparr>"

definition example_free :: pq where
  "example_free =
     \<lparr>heap = (\<lambda>_. None)
        (32 \<mapsto> \<lparr>key = key_min, counter = 1, val = 0, nxt = 0\<rparr>,
         64 \<mapsto> \<lparr>key = key_max, counter = 1, val = 0, nxt = 32\<rparr>,
         96 \<mapsto> \<lparr>key = 5, counter = 0, val = 4097, nxt = 0\<rparr>),
      free_list = 96, head = 64, tail = 32,
      fresh = map (\<lambda>p. (p, zero_node)) [128, 160, 192]\<rparr>"


section \<open>Runs of a single thread\<close>


text \<open>What \<open>new Node()\<close> and the \<open>release\<close> of the only reference to a node do to a state.\<close>

definition allocated0 :: "ptr \<Rightarrow> node \<Rightarrow> pq \<Rightarrow> pq" where
  "allocated0 p raw s =
     s\<lparr>heap := (heap s)(p \<mapsto> raw\<lparr>counter := 1, nxt := 0\<rparr>), fresh := tl (fresh s)\<rparr>"

definition pushed_free :: "ptr \<Rightarrow> pq \<Rightarrow> pq" where
  "pushed_free p s = (set_nxt p (free_list s) (adj p (- 1) s))\<lparr>free_list := p\<rparr>"



section \<open>Properties\<close>

lemma is_marked_bit0: "is_marked i = bit i 0"
  by (simp add: is_marked_def and_one_eq bit_0 mod_2_eq_odd)

lemma get_marked_bit: "bit (get_marked i) n = (bit i n \<or> n = 0)"
  by (auto simp: get_marked_def bit_or_iff bit_1_iff)

lemma get_unmarked_bit: "bit (get_unmarked i) n = (bit i n \<and> n \<noteq> 0)"
proof -
  have "(- 1 - 1 :: ptr) = NOT 1"
    by (simp add: not_eq_complement)
  then show ?thesis
    by (auto simp: get_unmarked_def bit_and_iff bit_not_iff bit_1_iff dest: bit_imp_possible_bit)
qed

text \<open>
  C9. For every pointer \<open>p\<close> with an even address, unmarking the marked pointer gives
  \<open>p\<close> back and the marked pointer tests as marked; an unmarked pointer never tests as
  marked, whatever it was made from; marking and unmarking are each idempotent.
\<close>

theorem tagged_pointer_laws:
  "(even p \<longrightarrow> get_unmarked (get_marked p) = p)
   \<and> is_marked (get_marked p)
   \<and> \<not> is_marked (get_unmarked q)
   \<and> get_marked (get_marked p) = get_marked p
   \<and> get_unmarked (get_unmarked q) = get_unmarked q"
proof -
  have "get_unmarked (get_marked p) = p" if "even p"
  proof (rule bit_eqI)
    fix n
    from that have "\<not> bit p 0"
      by (simp add: bit_0)
    then show "bit (get_unmarked (get_marked p)) n = bit p n"
      by (cases "n = 0") (simp_all add: get_marked_bit get_unmarked_bit)
  qed
  moreover have "get_marked (get_marked p) = get_marked p"
    by (rule bit_eqI) (auto simp: get_marked_bit)
  moreover have "get_unmarked (get_unmarked q) = get_unmarked q"
    by (rule bit_eqI) (auto simp: get_unmarked_bit)
  ultimately show ?thesis
    by (simp add: is_marked_bit0 get_marked_bit get_unmarked_bit)
qed

theorem tagged_pointer_laws_witness:
  "even (48 :: ptr) \<and> get_unmarked (get_marked 48) = (48 :: ptr)
   \<and> is_marked (get_marked (48 :: ptr))
   \<and> \<not> is_marked (get_unmarked (49 :: ptr))
   \<and> get_marked (get_marked 48) = get_marked (48 :: ptr)
   \<and> get_unmarked (get_unmarked 49) = get_unmarked (49 :: ptr)"
  using tagged_pointer_laws [of 48 49] by simp

subsection \<open>Sequencing\<close>

lemma bnd_Inr [simp]: "bnd (Inr (x, s)) f = f x s"
  by (simp add: bnd_def)

lemma bnd_Inl [simp]: "bnd (Inl e) f = Inl e"
  by (simp add: bnd_def)

declare reclaim.simps [simp del] release_decrement.simps [simp del] release.simps [simp del]
  safe_read.simps [simp del] get_new_node.simps [simp del] mark_link.simps [simp del]
  help_delete.simps [simp del] help_delete_search.simps [simp del]
  help_delete_walk.simps [simp del] read_next.simps [simp del] read_next_loop.simps [simp del]
  insert_walk.simps [simp del] insert_loop.simps [simp del]
  pop_loop.simps [simp del] reserve.simps [simp del]

lemma ge1D: "0 < n \<Longrightarrow> \<exists>m. n = Suc m"
  by (rule exI [of _ "n - 1"]) simp

lemma ge2D: "2 \<le> n \<Longrightarrow> \<exists>m. n = Suc (Suc m)"
  by (rule exI [of _ "n - 2"]) simp

lemma ge3D: "3 \<le> n \<Longrightarrow> \<exists>m. n = Suc (Suc (Suc m))"
  by (rule exI [of _ "n - 3"]) simp

subsection \<open>Reading a state after a change\<close>

lemma adj_fields [simp]:
  "head (adj p d s) = head s" "tail (adj p d s) = tail s"
  "free_list (adj p d s) = free_list s" "fresh (adj p d s) = fresh s"
  "(heap (adj p d s) q = None) = (heap s q = None)"
  "nxt_of (adj p d s) q = nxt_of s q" "key_of (adj p d s) q = key_of s q"
  "val_of (adj p d s) q = val_of s q"
  "counter_of (adj p d s) q =
     (if q = p \<and> heap s p \<noteq> None then counter_of s p + d else counter_of s q)"
  by (cases "heap s p"; simp add: adj_def nxt_of_def key_of_def val_of_def counter_of_def)+

lemma set_nxt_fields [simp]:
  "head (set_nxt p v s) = head s" "tail (set_nxt p v s) = tail s"
  "free_list (set_nxt p v s) = free_list s" "fresh (set_nxt p v s) = fresh s"
  "(heap (set_nxt p v s) q = None) = (heap s q = None)"
  "nxt_of (set_nxt p v s) q = (if q = p \<and> heap s p \<noteq> None then v else nxt_of s q)"
  "key_of (set_nxt p v s) q = key_of s q"
  "val_of (set_nxt p v s) q = val_of s q"
  "counter_of (set_nxt p v s) q = counter_of s q"
  by (cases "heap s p"; simp add: set_nxt_def nxt_of_def key_of_def val_of_def counter_of_def)+

lemma set_val_fields [simp]:
  "head (set_val p v s) = head s" "tail (set_val p v s) = tail s"
  "free_list (set_val p v s) = free_list s" "fresh (set_val p v s) = fresh s"
  "(heap (set_val p v s) q = None) = (heap s q = None)"
  "nxt_of (set_val p v s) q = nxt_of s q"
  "key_of (set_val p v s) q = key_of s q"
  "val_of (set_val p v s) q = (if q = p \<and> heap s p \<noteq> None then v else val_of s q)"
  "counter_of (set_val p v s) q = counter_of s q"
  by (cases "heap s p"; simp add: set_val_def nxt_of_def key_of_def val_of_def counter_of_def)+

lemma set_key_fields [simp]:
  "head (set_key p k s) = head s" "tail (set_key p k s) = tail s"
  "free_list (set_key p k s) = free_list s" "fresh (set_key p k s) = fresh s"
  "(heap (set_key p k s) q = None) = (heap s q = None)"
  "nxt_of (set_key p k s) q = nxt_of s q"
  "key_of (set_key p k s) q = (if q = p \<and> heap s p \<noteq> None then k else key_of s q)"
  "val_of (set_key p k s) q = val_of s q"
  "counter_of (set_key p k s) q = counter_of s q"
  by (cases "heap s p"; simp add: set_key_def nxt_of_def key_of_def val_of_def counter_of_def)+

lemma free_list_update_fields [simp]:
  "nxt_of (s\<lparr>free_list := f\<rparr>) = nxt_of s" "key_of (s\<lparr>free_list := f\<rparr>) = key_of s"
  "val_of (s\<lparr>free_list := f\<rparr>) = val_of s" "counter_of (s\<lparr>free_list := f\<rparr>) = counter_of s"
  by (simp_all add: fun_eq_iff nxt_of_def key_of_def val_of_def counter_of_def)

lemma adj_adj [simp]: "adj p d (adj p e s) = adj p (e + d) s"
  by (cases "heap s p") (simp_all add: adj_def add.assoc)

lemma adj_0 [simp]: "adj p 0 s = s"
  by (cases "heap s p") (simp_all add: adj_def fun_upd_idem)

lemma adj_commute: "adj p d (adj q e s) = adj q e (adj p d s)"
proof (cases "p = q")
  case True
  then show ?thesis by (simp add: add.commute)
next
  case False
  then show ?thesis by (simp add: adj_def fun_upd_twist)
qed

lemma adj_adj3 [simp]: "adj p d (adj q e (adj p f s)) = adj q e (adj p (f + d) s)"
  by (simp add: adj_commute [of p d q e])

lemma node_update_swap:
  "nxt_update f (counter_update g nd) = counter_update g (nxt_update f nd)"
  "val_update f' (counter_update g nd) = counter_update g (val_update f' nd)"
  by (cases nd; simp)+

lemma adj_set_nxt [simp]: "set_nxt q v (adj p d s) = adj p d (set_nxt q v s)"
  by (cases "heap s p"; cases "heap s q"; cases "p = q")
    (simp_all add: adj_def set_nxt_def fun_upd_twist node_update_swap)

lemma adj_set_val [simp]: "set_val q v (adj p d s) = adj p d (set_val q v s)"
  by (cases "heap s p"; cases "heap s q"; cases "p = q")
    (simp_all add: adj_def set_val_def fun_upd_twist node_update_swap)

lemma adj_free_list [simp]: "(adj p d s)\<lparr>free_list := f\<rparr> = adj p d (s\<lparr>free_list := f\<rparr>)"
  by (simp add: adj_def)

subsection \<open>The primitive accesses\<close>

lemma cell_simps [simp]:
  "cell_val s Head = head s" "cell_val s FreeList = free_list s"
  "cell_val s (Next p) = nxt_of s p" "cell_val s (Value p) = val_of s p"
  "cell_ok s Head" "cell_ok s FreeList"
  "cell_ok s (Next p) = (heap s p \<noteq> None)" "cell_ok s (Value p) = (heap s p \<noteq> None)"
  by (simp_all add: cell_val_def cell_ok_def)

lemma load_eq: "load c s = (if cell_ok s c then Inr (cell_val s c, s) else Inl BadDeref)"
  by (cases c) (auto simp: load_def nxt_of_def val_of_def)

lemma load_ok [simp]: "cell_ok s c \<Longrightarrow> load c s = Inr (cell_val s c, s)"
  by (simp add: load_eq)

lemma store_ok [simp]:
  "store Head v s = Inr ((), s\<lparr>head := v\<rparr>)"
  "store FreeList v s = Inr ((), s\<lparr>free_list := v\<rparr>)"
  "heap s p \<noteq> None \<Longrightarrow> store (Next p) v s = Inr ((), set_nxt p v s)"
  "heap s p \<noteq> None \<Longrightarrow> store (Value p) v s = Inr ((), set_val p v s)"
  by (auto simp: store_def set_nxt_def set_val_def)

lemma load_key_ok [simp]: "heap s p \<noteq> None \<Longrightarrow> load_key p s = Inr (key_of s p, s)"
  by (auto simp: load_key_def key_of_def)

lemma store_key_ok [simp]: "heap s p \<noteq> None \<Longrightarrow> store_key p k s = Inr ((), set_key p k s)"
  by (auto simp: store_key_def set_key_def)

lemma incr_counter_ok [simp]: "heap s p \<noteq> None \<Longrightarrow> incr_counter p s = Inr ((), adj p 1 s)"
  by (auto simp: incr_counter_def load_counter_def store_counter_def adj_def)

lemma cell_adj [simp]: "cell_ok (adj p d s) c = cell_ok s c" "cell_val (adj p d s) c = cell_val s c"
  by (cases c; simp)+

subsection \<open>\<open>safe_read\<close>, \<open>release\<close> and \<open>read_next\<close> when nothing interferes\<close>

lemma safe_read_null:
  assumes "0 < n" "cell_ok s c" "cell_val s c = 0 \<or> is_marked (cell_val s c)"
  shows "safe_read n c s = Inr (0, s)"
proof -
  from assms(1) obtain m where "n = Suc m"
    by (auto dest: ge1D)
  with assms show ?thesis
    by (auto simp: safe_read.simps)
qed

lemma safe_read_some:
  assumes "0 < n" "cell_ok s c" "cell_val s c \<noteq> 0" "\<not> is_marked (cell_val s c)"
    "heap s (cell_val s c) \<noteq> None"
  shows "safe_read n c s = Inr (cell_val s c, adj (cell_val s c) 1 s)"
proof -
  from assms(1) obtain m where "n = Suc m"
    by (auto dest: ge1D)
  with assms show ?thesis
    by (simp add: safe_read.simps)
qed

lemma release_null: "0 < n \<Longrightarrow> release n 0 s = Inr ((), s)"
  by (auto dest!: ge1D simp: release.simps)

lemma release_decrement_ok:
  assumes "0 < n" "heap s p \<noteq> None"
  shows "release_decrement n p s = Inr (counter_of s p - 1, adj p (- 1) s)"
proof -
  from assms(1) obtain m where "n = Suc m"
    by (auto dest: ge1D)
  with assms(2) show ?thesis
    by (auto simp: release_decrement.simps load_counter_def compare_exchange_counter_def
        store_counter_def adj_def Let_def counter_of_def)
qed

lemma release_keep:
  assumes "2 \<le> n" "p \<noteq> 0" "heap s p \<noteq> None" "counter_of s p \<noteq> 1"
  shows "release n p s = Inr ((), adj p (- 1) s)"
proof -
  from assms(1) obtain m where "n = Suc (Suc m)"
    by (auto dest: ge2D)
  with assms show ?thesis
    by (simp add: release.simps release_decrement_ok)
qed

lemma get_unmarked_simps [simp]: "get_unmarked 0 = 0" "get_unmarked 1 = 0"
  by (simp_all add: get_unmarked_def)

lemma reclaim_ok:
  assumes "0 < n" "heap s p \<noteq> None"
  shows "reclaim n p s = Inr ((), (set_nxt p (free_list s) s)\<lparr>free_list := p\<rparr>)"
proof -
  from assms(1) obtain m where "n = Suc m"
    by (auto dest: ge1D)
  with assms(2) show ?thesis
    by (simp add: reclaim.simps compare_exchange_def)
qed

text \<open>The last reference to a node whose link no longer refers to anything.\<close>

lemma release_last:
  assumes "3 \<le> n" "p \<noteq> 0" "heap s p \<noteq> None" "counter_of s p = 1"
    "get_unmarked (nxt_of s p) = 0"
  shows "release n p s = Inr ((), (set_nxt p (free_list s) (adj p (- 1) s))\<lparr>free_list := p\<rparr>)"
proof -
  from assms(1) obtain m where "n = Suc (Suc (Suc m))"
    by (auto dest: ge3D)
  with assms show ?thesis
    by (simp add: release.simps release_decrement_ok release_null reclaim_ok)
qed

lemma read_next_some:
  assumes "2 \<le> n" "heap s q \<noteq> None" "nxt_of s q \<noteq> 0" "\<not> is_marked (nxt_of s q)"
    "heap s (nxt_of s q) \<noteq> None"
  shows "read_next n q s = Inr (nxt_of s q, adj (nxt_of s q) 1 s)"
proof -
  from assms(1) obtain m where "n = Suc (Suc m)"
    by (auto dest: ge2D)
  with assms show ?thesis
    by (simp add: read_next.simps read_next_loop.simps safe_read_some)
qed

subsection \<open>What the invariant says about single nodes\<close>

lemma linked_iff: "linked s a b \<longleftrightarrow> heap s a \<noteq> None \<and> nxt_of s a = b"
  by (auto simp: linked_def nxt_of_def split: option.splits)

lemma counted_iff:
  "counted s p \<longleftrightarrow> heap s p \<noteq> None \<and> (counter_of s p = 1 \<or> counter_of s p = 2)"
  by (auto simp: counted_def counter_of_def split: option.splits)

lemma uncounted_iff: "uncounted s p \<longleftrightarrow> heap s p \<noteq> None \<and> counter_of s p = 0"
  by (auto simp: uncounted_def counter_of_def split: option.splits)

lemma inv_node:
  assumes "pq_inv s ps fs" "q \<in> set (head s # ps @ [tail s])"
  shows "heap s q \<noteq> None" "q \<noteq> 0" "\<not> is_marked q" "counter_of s q = 1 \<or> counter_of s q = 2"
  using assms by (auto simp: pq_inv_def counted_iff)

lemma inv_head_next: "pq_inv s ps fs \<Longrightarrow> nxt_of s (head s) = hd (ps @ [tail s])"
  by (auto simp: pq_inv_def successively_Cons hd_append linked_iff)

lemma inv_tail_next: "pq_inv s ps fs \<Longrightarrow> nxt_of s (tail s) = 0"
  by (auto simp: pq_inv_def successively_Cons successively_append_iff linked_iff)

lemma inv_mid:
  assumes "pq_inv s (xs @ y # ys) fs"
  shows "nxt_of s y = hd (ys @ [tail s])" "nxt_of s (last (head s # xs)) = y"
    "y \<noteq> tail s" "y \<noteq> head s" "y \<notin> set xs" "y \<notin> set ys"
proof -
  from assms have "successively (linked s) ((head s # xs) @ (y # ys @ [tail s, 0]))"
    by (simp add: pq_inv_def)
  then have "linked s (last (head s # xs)) y" "successively (linked s) (y # ys @ [tail s, 0])"
    unfolding successively_append_iff by auto
  then show "nxt_of s y = hd (ys @ [tail s])" "nxt_of s (last (head s # xs)) = y"
    by (auto simp: successively_Cons hd_append linked_iff)
  from assms show "y \<noteq> tail s" "y \<noteq> head s" "y \<notin> set xs" "y \<notin> set ys"
    by (auto simp: pq_inv_def)
qed

lemma inv_first:
  assumes "pq_inv s (x # rest) fs"
  shows "nxt_of s (head s) = x" "nxt_of s x = hd (rest @ [tail s])"
    "x \<noteq> tail s" "x \<noteq> head s" "x \<notin> set rest"
  using inv_mid [of s "[]" x rest fs] assms by simp_all

subsection \<open>\<open>pop\<close>, one iteration\<close>

lemma release_undo:
  assumes "2 \<le> n" "p \<noteq> 0" "heap s p \<noteq> None" "counter_of s p = 1 \<or> counter_of s p = 2"
  shows "release n p (adj p 1 s) = Inr ((), s)"
proof -
  from assms(4) have "counter_of (adj p 1 s) p \<noteq> 1"
    using assms(3) by auto
  then show ?thesis
    using assms by (simp add: release_keep)
qed

lemma pop_empty:
  assumes "pq_inv s [] fs" "3 \<le> n"
  shows "pop n s = Inr (0, s)"
proof -
  from assms(2) obtain m where n: "n = Suc m" "2 \<le> m"
    by (cases n) auto
  note t = inv_node [OF assms(1), of "tail s"] and h = inv_node [OF assms(1), of "head s"]
    and hn = inv_head_next [OF assms(1)]
  have "read_next m (head s) s = Inr (tail s, adj (tail s) 1 s)"
    using read_next_some [of m s "head s"] n(2) t h hn by simp
  then show ?thesis
    using n t by (simp add: pop_def pop_loop.simps release_undo)
qed

text \<open>The first node is read and counted by both overloads.\<close>

lemma read_first:
  assumes "pq_inv s (x # rest) fs" "2 \<le> m"
  shows "read_next m (head s) s = Inr (x, adj x 1 s)"
  using read_next_some [of m s "head s"] assms(2) inv_node [OF assms(1), of "head s"]
    inv_node [OF assms(1), of x] inv_first [OF assms(1)]
  by simp

lemma get_unmarked_id: "\<not> is_marked v \<Longrightarrow> get_unmarked v = v"
proof (rule bit_eqI)
  fix n
  assume "\<not> is_marked v"
  then show "bit (get_unmarked v) n = bit v n"
    by (cases "n = 0") (simp_all add: get_unmarked_bit is_marked_bit0)
qed

lemma get_unmarked_neq: "is_marked v \<Longrightarrow> get_unmarked v \<noteq> v"
  using tagged_pointer_laws [of v v] by auto

lemma pop_live:
  assumes "pq_inv s (x # rest) fs" "\<not> is_marked (val_of s x)" "3 \<le> n"
  shows "pop n s = Inr (val_of s x, set_val x (get_marked (val_of s x)) s)"
proof -
  from assms(3) obtain m where n: "n = Suc m" "2 \<le> m"
    by (cases n) auto
  note x = inv_node [OF assms(1), of x] and f = inv_first [OF assms(1)]
  show ?thesis
    using n x f assms(2) read_first [OF assms(1) n(2)]
    by (simp add: pop_def pop_loop.simps compare_exchange_def get_unmarked_id release_undo Let_def)
qed

lemma set_nxt_set_nxt [simp]: "set_nxt p v (set_nxt p u s) = set_nxt p v s"
  by (cases "heap s p") (simp_all add: set_nxt_def)

lemma set_nxt_commute: "p \<noteq> q \<Longrightarrow> set_nxt p v (set_nxt q w s) = set_nxt q w (set_nxt p v s)"
  by (simp add: set_nxt_def fun_upd_twist)

lemma set_nxt_set_nxt3 [simp]:
  "set_nxt p v (set_nxt q w (set_nxt p u s)) = set_nxt p v (set_nxt q w s)"
  by (cases "p = q") (simp_all add: set_nxt_commute [of p q])

lemma mark_link_ok:
  assumes "0 < n" "heap s p \<noteq> None" "\<not> is_marked (nxt_of s p)"
  shows "mark_link n p s = Inr (nxt_of s p, set_nxt p (get_marked (nxt_of s p)) s)"
proof -
  from assms(1) obtain m where "n = Suc m"
    by (auto dest: ge1D)
  with assms show ?thesis
    by (simp add: mark_link.simps compare_exchange_def)
qed


lemma inv_second:
  assumes "pq_inv s (x # rest) fs"
  shows "hd (rest @ [tail s]) \<in> set (head s # (x # rest) @ [tail s])"
    "hd (rest @ [tail s]) \<noteq> x" "hd (rest @ [tail s]) \<noteq> head s"
  using assms by (cases rest; auto simp: pq_inv_def)+

lemma help_delete_search_first:
  assumes "pq_inv s (x # rest) fs" "4 \<le> n"
    "s' = adj x c (set_nxt x (get_marked (nxt_of s x)) s)"
  shows "help_delete_search n x (nxt_of s x) 0 0 s'
     = Inr ((head s, x, True), adj (head s) 1 (adj x (c + 1) (set_nxt (head s) (nxt_of s x) (set_nxt x (get_marked (nxt_of s x)) s))))"
proof -
  from assms(2) obtain m where n: "n = Suc (Suc m)" "2 \<le> m"
    by (cases n; simp; cases "n - 1"; simp)
  note x = inv_node [OF assms(1), of x] and h = inv_node [OF assms(1), of "head s"]
    and f = inv_first [OF assms(1)]
  have "help_delete_walk (Suc m) x (head s) x t = Inr ((head s, x), t)" for t
    by (simp add: help_delete_walk.simps)
  then show ?thesis
    using n x h f assms(3)
    by (simp add: help_delete_search.simps release_null safe_read_some read_next_some
        compare_exchange_def)
qed

lemma count_offsets:
  fixes c :: "32 word"
  assumes "c = 1 \<or> c = 2"
  shows "c + 1 \<noteq> 1" "c + 2 \<noteq> 1" "c \<noteq> 0" "1 + c \<noteq> 1" "2 + c \<noteq> 1"
  using assms by auto

lemma get_unmarked_neq': "is_marked v \<Longrightarrow> v \<noteq> get_unmarked v"
  using get_unmarked_neq [of v] by auto

lemma help_delete_first:
  assumes "pq_inv s (x # rest) fs" "5 \<le> n"
  shows "help_delete n x (adj x 1 s)
     = Inr (head s, adj (head s) 1 (set_nxt x 1 (set_nxt (head s) (nxt_of s x) s)))"
proof -
  from assms(2) obtain m where n: "n = Suc m" "4 \<le> m"
    by (cases n) auto
  note x = inv_node [OF assms(1), of x] and h = inv_node [OF assms(1), of "head s"]
    and f = inv_first [OF assms(1)] and y = inv_node [OF assms(1) inv_second(1) [OF assms(1)]]
  have m: "mark_link m x (adj x 1 s)
      = Inr (nxt_of s x, adj x 1 (set_nxt x (get_marked (nxt_of s x)) s))"
    using mark_link_ok [of m "adj x 1 s" x] n x f y by simp
  have "get_unmarked (nxt_of s x) = nxt_of s x" "nxt_of s x \<noteq> 0"
    using f y by (simp_all add: get_unmarked_id)
  then show ?thesis
    using n x(1-3) h(1-3) f m count_offsets [OF x(4)] count_offsets [OF h(4)]
      help_delete_search_first [OF assms(1) n(2), of _ 1]
    by (simp add: help_delete.simps Let_def release_keep)
qed

lemma pop_dead:
  assumes "pq_inv s (x # rest) fs" "is_marked (val_of s x)" "5 \<le> n"
  shows "pop (Suc n) s = pop n (unlink_first s)"
proof -
  note x = inv_node [OF assms(1), of x] and h = inv_node [OF assms(1), of "head s"]
    and f = inv_first [OF assms(1)]
  show ?thesis
    using x(1-3) h(1-3) f assms(2,3) read_first [OF assms(1), of n]
      help_delete_first [OF assms(1), of n] count_offsets [OF x(4)] count_offsets [OF h(4)]
    by (cases "counter_of s x = 1")
      (simp_all add: pop_def pop_loop.simps compare_exchange_def get_unmarked_neq' Let_def release_keep
        release_last unlink_first_def)
qed

subsection \<open>Keeping the invariant\<close>

lemma successively_linked_frame:
  assumes "successively (linked s) xs"
    and "\<And>a. a \<in> set (butlast xs) \<Longrightarrow> heap s' a \<noteq> None \<and> nxt_of s' a = nxt_of s a"
  shows "successively (linked s') xs"
  using assms
proof (induction "linked s" xs rule: successively.induct)
  case (3 x y xs)
  then show ?case
    by (auto simp: linked_iff)
qed simp_all

lemma pq_invI:
  assumes "distinct (head s # ps @ tail s # fs @ map fst (fresh s))"
    and "\<forall>p \<in> set (head s # ps @ tail s # fs @ map fst (fresh s)). p \<noteq> 0 \<and> \<not> is_marked p"
    and "successively (linked s) (head s # ps @ [tail s, 0])"
    and "\<forall>p \<in> set (head s # ps @ [tail s]). counted s p"
    and "free_list s = hd (fs @ [0])"
    and "successively (linked s) (fs @ [0])"
    and "\<forall>p \<in> set fs. uncounted s p"
    and "\<forall>p \<in> set (map fst (fresh s)). heap s p = None"
    and "sorted_wrt (\<ge>) (map (key_of s) ps)"
  shows "pq_inv s ps fs"
  using assms unfolding pq_inv_def by blast

lemma pq_invD:
  assumes "pq_inv s ps fs"
  shows "distinct (head s # ps @ tail s # fs @ map fst (fresh s))"
    and "\<forall>p \<in> set (head s # ps @ tail s # fs @ map fst (fresh s)). p \<noteq> 0 \<and> \<not> is_marked p"
    and "successively (linked s) (head s # ps @ [tail s, 0])"
    and "\<forall>p \<in> set (head s # ps @ [tail s]). counted s p"
    and "free_list s = hd (fs @ [0])"
    and "successively (linked s) (fs @ [0])"
    and "\<forall>p \<in> set fs. uncounted s p"
    and "\<forall>p \<in> set (map fst (fresh s)). heap s p = None"
    and "sorted_wrt (\<ge>) (map (key_of s) ps)"
  using assms unfolding pq_inv_def by blast+

text \<open>A state that reads the same at every node of the two lists is as good as the old one.\<close>

lemma pq_inv_frame:
  assumes inv: "pq_inv s ps fs"
    and fields: "head s' = head s" "tail s' = tail s" "free_list s' = free_list s"
      "fresh s' = fresh s"
    and alloc: "\<And>q. (heap s' q = None) = (heap s q = None)"
    and same: "\<And>q. q \<in> set (head s # ps @ tail s # fs) \<Longrightarrow>
      nxt_of s' q = nxt_of s q \<and> counter_of s' q = counter_of s q \<and> key_of s' q = key_of s q"
  shows "pq_inv s' ps fs"
proof (rule pq_invI)
  note d = pq_invD [OF inv]
  show "distinct (head s' # ps @ tail s' # fs @ map fst (fresh s'))"
    using d(1) by (simp add: fields)
  show "\<forall>p \<in> set (head s' # ps @ tail s' # fs @ map fst (fresh s')). p \<noteq> 0 \<and> \<not> is_marked p"
    using d(2) by (simp add: fields)
  have "successively (linked s') (head s # ps @ [tail s, 0])"
    using d(3)
  proof (rule successively_linked_frame)
    fix a assume "a \<in> set (butlast (head s # ps @ [tail s, 0]))"
    then have a: "a \<in> set (head s # ps @ [tail s])"
      by (auto simp: butlast_append)
    then have "a \<in> set (head s # ps @ tail s # fs)"
      by auto
    with inv_node(1) [OF inv a] show "heap s' a \<noteq> None \<and> nxt_of s' a = nxt_of s a"
      by (simp only: alloc same not_False_eq_True simp_thms)
  qed
  then show "successively (linked s') (head s' # ps @ [tail s', 0])"
    by (simp add: fields)
  show "\<forall>p \<in> set (head s' # ps @ [tail s']). counted s' p"
    using d(4) by (auto simp: fields counted_iff alloc same)
  show "free_list s' = hd (fs @ [0])"
    using d(5) by (simp add: fields)
  show "successively (linked s') (fs @ [0])"
    using d(6) by (rule successively_linked_frame) (use d(7) in \<open>auto simp: alloc same uncounted_iff\<close>)
  show "\<forall>p \<in> set fs. uncounted s' p"
    using d(7) by (auto simp: uncounted_iff alloc same)
  show "\<forall>p \<in> set (map fst (fresh s')). heap s' p = None"
    using d(8) by (simp add: fields alloc)
  have keq: "map (key_of s') ps = map (key_of s) ps"
    by (simp add: same)
  show "sorted_wrt (\<ge>) (map (key_of s') ps)"
    using d(9) by (simp only: keq)
qed

lemma inv_set_val: "pq_inv s ps fs \<Longrightarrow> pq_inv (set_val x v s) ps fs"
  by (erule pq_inv_frame) simp_all

lemma entries_Cons [simp]: "entries s (p # ps) = (key_of s p, val_of s p) # entries s ps"
  by (simp add: entries_def)

lemma entries_Nil [simp]: "entries s [] = []"
  by (simp add: entries_def)

lemma entries_append [simp]: "entries s (ps @ qs) = entries s ps @ entries s qs"
  by (simp add: entries_def)

lemma entries_frame:
  "(\<And>q. q \<in> set ps \<Longrightarrow> key_of s' q = key_of s q \<and> val_of s' q = val_of s q) \<Longrightarrow>
   entries s' ps = entries s ps"
  by (simp add: entries_def)

lemma inv_unlink_first:
  assumes inv: "pq_inv s (x # rest) fs"
  shows "pq_inv (unlink_first s) rest (if counter_of s x = 1 then x # fs else fs)"
proof -
  let ?s = "unlink_first s"
  note d = pq_invD [OF inv] and f = inv_first [OF inv]
    and x = inv_node [OF inv, of x] and h = inv_node [OF inv, of "head s"]
  have fields: "head ?s = head s" "tail ?s = tail s" "fresh ?s = fresh s"
    "free_list ?s = (if counter_of s x = 1 then x else free_list s)"
    by (simp_all add: unlink_first_def Let_def f)
  have alloc: "(heap ?s q = None) = (heap s q = None)" for q
    by (simp add: unlink_first_def Let_def)
  have other: "nxt_of ?s q = nxt_of s q" "counter_of ?s q = counter_of s q"
    if "q \<noteq> x" "q \<noteq> head s" for q
    using that by (simp_all add: unlink_first_def Let_def f)
  have keys: "key_of ?s = key_of s"
    by (rule ext) (simp add: unlink_first_def Let_def)
  have hd: "nxt_of ?s (head s) = hd (rest @ [tail s])" "counter_of ?s (head s) = counter_of s (head s)"
    using f h x by (simp_all add: unlink_first_def Let_def)
  have xs: "counter_of ?s x = counter_of s x - 1"
    "counter_of s x = 1 \<Longrightarrow> nxt_of ?s x = free_list s"
    using f h x by (simp_all add: unlink_first_def Let_def)
  show ?thesis
  proof (rule pq_invI)
    show "distinct (head ?s # rest @ tail ?s # (if counter_of s x = 1 then x # fs else fs)
        @ map fst (fresh ?s))"
      using d(1) by (auto simp: fields)
    show "\<forall>p \<in> set (head ?s # rest @ tail ?s # (if counter_of s x = 1 then x # fs else fs)
        @ map fst (fresh ?s)). p \<noteq> 0 \<and> \<not> is_marked p"
      using d(2) by (auto simp: fields)
    have "successively (linked s) (rest @ [tail s, 0])"
      using d(3) by (simp add: successively_Cons)
    then have "successively (linked ?s) (rest @ [tail s, 0])"
    proof (rule successively_linked_frame)
      fix a assume "a \<in> set (butlast (rest @ [tail s, 0]))"
      then have a: "a \<in> set rest \<or> a = tail s"
        by (auto simp: butlast_append)
      then have "a \<noteq> x" "a \<noteq> head s" "heap s a \<noteq> None"
        using d(1) inv_node [OF inv, of a] by auto
      then show "heap ?s a \<noteq> None \<and> nxt_of ?s a = nxt_of s a"
        by (simp add: alloc other)
    qed
    moreover have "linked ?s (head s) (hd (rest @ [tail s, 0]))"
      using hd h by (simp add: linked_iff alloc hd_append)
    ultimately show "successively (linked ?s) (head ?s # rest @ [tail ?s, 0])"
      by (simp add: fields successively_Cons)
    show "\<forall>p \<in> set (head ?s # rest @ [tail ?s]). counted ?s p"
    proof
      fix p assume "p \<in> set (head ?s # rest @ [tail ?s])"
      then have p: "p = head s \<or> (p \<noteq> x \<and> p \<noteq> head s \<and> (p \<in> set rest \<or> p = tail s))"
        using d(1) by (auto simp: fields)
      then have "p \<in> set (head s # (x # rest) @ [tail s])"
        by auto
      from inv_node [OF inv this] p show "counted ?s p"
        by (auto simp: counted_iff alloc other hd)
    qed
    show "free_list ?s = hd ((if counter_of s x = 1 then x # fs else fs) @ [0])"
      using d(5) by (simp add: fields)
    have "successively (linked ?s) (fs @ [0])"
      using d(6)
    proof (rule successively_linked_frame)
      fix a assume "a \<in> set (butlast (fs @ [0]))"
      then have "a \<in> set fs"
        by simp
      then have "a \<noteq> x" "a \<noteq> head s" "heap s a \<noteq> None"
        using d(1) d(7) by (auto simp: uncounted_iff)
      then show "heap ?s a \<noteq> None \<and> nxt_of ?s a = nxt_of s a"
        by (simp add: alloc other)
    qed
    moreover have "linked ?s x (hd (fs @ [0]))" if "counter_of s x = 1"
      using that x d(5) by (simp add: linked_iff alloc xs)
    ultimately show "successively (linked ?s) ((if counter_of s x = 1 then x # fs else fs) @ [0])"
      by (simp add: successively_Cons)
    show "\<forall>p \<in> set (if counter_of s x = 1 then x # fs else fs). uncounted ?s p"
    proof
      fix p assume p: "p \<in> set (if counter_of s x = 1 then x # fs else fs)"
      show "uncounted ?s p"
      proof (cases "p = x")
        case True
        with p d(1) have "counter_of s x = 1"
          by (auto split: if_splits)
        with True x show ?thesis
          by (simp add: uncounted_iff alloc xs)
      next
        case False
        with p have "p \<in> set fs"
          by (auto split: if_splits)
        moreover from this have "p \<noteq> head s"
          using d(1) by auto
        ultimately show ?thesis
          using False d(7) by (auto simp: uncounted_iff alloc other)
      qed
    qed
    show "\<forall>p \<in> set (map fst (fresh ?s)). heap ?s p = None"
      using d(8) by (simp add: fields alloc)
    show "sorted_wrt (\<ge>) (map (key_of ?s) rest)"
      using d(9) by (simp add: keys)
  qed
qed

lemma unlink_first_entries:
  "entries (unlink_first s) ps = entries s ps"
  by (rule entries_frame) (simp add: unlink_first_def Let_def)

lemma unlink_first_fields [simp]:
  "head (unlink_first s) = head s" "tail (unlink_first s) = tail s"
  "fresh (unlink_first s) = fresh s" "key_of (unlink_first s) q = key_of s q"
  "val_of (unlink_first s) q = val_of s q"
  by (simp_all add: unlink_first_def Let_def)

lemma same_sentinels_refl [simp]: "same_sentinels s s"
  by (simp add: same_sentinels_def)

lemma same_sentinels_trans:
  "same_sentinels s t \<Longrightarrow> same_sentinels t u \<Longrightarrow> same_sentinels s u"
  by (simp add: same_sentinels_def)

lemma same_sentinels_unlink [simp]: "same_sentinels s (unlink_first s)"
  by (simp add: same_sentinels_def)

lemma same_sentinels_set_val [simp]: "same_sentinels s (set_val x v s)"
  by (simp add: same_sentinels_def)

lemma pop_refines:
  assumes "pq_inv s ps fs" "length ps + 6 \<le> n"
  shows "\<exists>s' ps' fs'. pop n s = Inr (fst (abs_pop (entries s ps)), s')
    \<and> pq_inv s' ps' fs' \<and> entries s' ps' = snd (abs_pop (entries s ps))
    \<and> same_sentinels s s' \<and> fresh s' = fresh s"
  using assms
proof (induction ps arbitrary: s fs n)
  case Nil
  then have "pop n s = Inr (0, s)"
    by (intro pop_empty) auto
  with Nil show ?case
    by auto
next
  case (Cons x rest)
  show ?case
  proof (cases "is_marked (val_of s x)")
    case False
    have "pop n s = Inr (val_of s x, set_val x (get_marked (val_of s x)) s)"
      using Cons.prems False by (intro pop_live) auto
    moreover have "entries (set_val x (get_marked (val_of s x)) s) (x # rest)
        = (key_of s x, get_marked (val_of s x)) # entries s rest"
      using inv_first [OF Cons.prems(1)] inv_node(1) [OF Cons.prems(1), of x]
      by (auto intro!: entries_frame)
    ultimately show ?thesis
      using False inv_set_val [OF Cons.prems(1)] by (intro exI [of _ "x # rest"] exI) auto
  next
    case True
    from Cons.prems obtain m where n: "n = Suc m" "length rest + 6 \<le> m"
      by (cases n) auto
    let ?s = "unlink_first s"
    have step: "pop n s = pop m ?s"
      using Cons.prems(1) True n by (simp add: pop_dead)
    from Cons.IH [OF inv_unlink_first [OF Cons.prems(1)] n(2)]
    obtain s' ps' fs' where
      "pop m ?s = Inr (fst (abs_pop (entries ?s rest)), s')" "pq_inv s' ps' fs'"
      "entries s' ps' = snd (abs_pop (entries ?s rest))" "same_sentinels ?s s'"
      "fresh s' = fresh ?s"
      by blast
    then show ?thesis
      using True step same_sentinels_trans [OF same_sentinels_unlink]
      by (auto simp: unlink_first_entries)
  qed
qed

subsection \<open>The walk of \<open>insert\<close>\<close>

lemma inv_last:
  assumes "pq_inv s (xs @ ys) fs"
  shows "last (head s # xs) \<in> set (head s # (xs @ ys) @ [tail s])"
    "hd (ys @ [tail s]) \<in> set (head s # (xs @ ys) @ [tail s])"
    "last (head s # xs) \<noteq> hd (ys @ [tail s])"
proof -
  have a: "last (head s # xs) \<in> set (head s # xs)"
    by (rule last_in_set) simp
  have b: "hd (ys @ [tail s]) \<in> set (ys @ [tail s])"
    by (rule hd_in_set) simp
  from a show "last (head s # xs) \<in> set (head s # (xs @ ys) @ [tail s])"
    by auto
  from b show "hd (ys @ [tail s]) \<in> set (head s # (xs @ ys) @ [tail s])"
    by auto
  have "distinct ((head s # xs) @ (ys @ [tail s]))"
    using pq_invD(1) [OF assms] by auto
  then have "set (head s # xs) \<inter> set (ys @ [tail s]) = {}"
    by (simp only: distinct_append)
  with a b show "last (head s # xs) \<noteq> hd (ys @ [tail s])"
    by (metis disjoint_iff)
qed

lemma insert_walk_run:
  assumes "pq_inv s (xs @ ys) fs" "length ys + 3 \<le> n"
  shows "insert_walk n k (last (head s # xs)) (hd (ys @ [tail s]))
      (adj (hd (ys @ [tail s])) 1 (adj (last (head s # xs)) 1 s))
    = Inr ((last (head s # xs @ takeWhile (\<lambda>q. k \<le> key_of s q) ys),
            hd (dropWhile (\<lambda>q. k \<le> key_of s q) ys @ [tail s])),
           adj (hd (dropWhile (\<lambda>q. k \<le> key_of s q) ys @ [tail s])) 1
             (adj (last (head s # xs @ takeWhile (\<lambda>q. k \<le> key_of s q) ys)) 1 s))"
  using assms
proof (induction ys arbitrary: xs n)
  case Nil
  then obtain m where n: "n = Suc m"
    by (cases n) auto
  from Nil have "heap s (tail s) \<noteq> None"
    by (intro inv_node(1) [of s xs fs]) auto
  then show ?case
    by (simp add: n insert_walk.simps)
next
  case (Cons y ys)
  then obtain m where n: "n = Suc m" "length ys + 3 \<le> m"
    by (cases n) auto
  let ?pv = "last (head s # xs)" and ?z = "hd (ys @ [tail s])"
  note inv = Cons.prems(1)
  note m = inv_mid [OF inv]
  note pv = inv_node [OF inv inv_last(1) [OF inv]]
  have y: "heap s y \<noteq> None" "y \<noteq> 0"
    using inv_node [OF inv, of y] by auto
  have inv': "pq_inv s ((xs @ [y]) @ ys) fs"
    using inv by simp
  note z = inv_node [OF inv' inv_last(2) [OF inv']]
  have ne: "?pv \<noteq> y"
    using inv_last(3) [OF inv] by simp
  show ?case
  proof (cases "k \<le> key_of s y")
    case True
    have "release m ?pv (adj y 1 (adj ?pv 1 s)) = Inr ((), adj y 1 s)"
      using n pv(1,2) ne count_offsets [OF pv(4)] by (simp add: release_keep)
    moreover have "read_next m y (adj y 1 s) = Inr (?z, adj ?z 1 (adj y 1 s))"
      using read_next_some [of m "adj y 1 s" y] n y m(1) z by simp
    moreover note Cons.IH [OF inv' n(2), simplified]
    ultimately show ?thesis
      using True y m(3) by (simp add: n insert_walk.simps)
  next
    case False
    then show ?thesis
      using y by (simp add: n insert_walk.simps)
  qed
qed

lemma insert_loop_run:
  assumes inv: "pq_inv s ps fs" and p: "heap s p \<noteq> None" "p \<notin> set (head s # ps @ [tail s])"
    and fuel: "length ps + 5 \<le> n"
  shows "insert_loop n k p s
    = Inr ((), set_nxt (last (head s # takeWhile (\<lambda>q. k \<le> key_of s q) ps)) p
                 (set_nxt p (hd (dropWhile (\<lambda>q. k \<le> key_of s q) ps @ [tail s])) s))"
proof -
  from fuel obtain m where n: "n = Suc m" "length ps + 4 \<le> m"
    by (cases n) auto
  let ?xs = "takeWhile (\<lambda>q. k \<le> key_of s q) ps" and ?ys = "dropWhile (\<lambda>q. k \<le> key_of s q) ps"
  let ?pv = "last (head s # ?xs)" and ?nd = "hd (?ys @ [tail s])"
  have inv': "pq_inv s (?xs @ ?ys) fs" and inv0: "pq_inv s ([] @ ps) fs"
    using inv by simp_all
  note h = inv_node [OF inv, of "head s"]
  note x0 = inv_node [OF inv0 inv_last(2) [OF inv0]]
  note pv = inv_node [OF inv' inv_last(1) [OF inv']]
  note nd = inv_node [OF inv' inv_last(2) [OF inv']]
  have "?pv \<in> set (head s # ps @ [tail s])" "?nd \<in> set (head s # ps @ [tail s])"
    using inv_last(1,2) [OF inv'] by simp_all
  with p(2) have ne: "?pv \<noteq> p" "?nd \<noteq> p" "?pv \<noteq> ?nd"
    using inv_last(3) [OF inv'] by auto
  have link: "nxt_of s ?pv = ?nd"
  proof (cases ?ys)
    case Nil
    then have "?xs = ps"
      by (metis append_Nil2 takeWhile_dropWhile_id)
    with Nil show ?thesis
      using inv_mid(2) [of s ps "tail s" "[]" fs] inv_head_next [OF inv] inv
      apply (cases ps rule: rev_cases)
       apply simp
      apply (simp add: pq_inv_def successively_append_iff successively_Cons linked_iff)
      done
  next
    case (Cons y ys')
    with inv_mid(2) [of s ?xs y ys' fs] inv' show ?thesis
      by simp
  qed
  have walk: "insert_walk m k (head s) (hd (ps @ [tail s])) (adj (hd (ps @ [tail s])) 1 (adj (head s) 1 s))
      = Inr ((?pv, ?nd), adj ?nd 1 (adj ?pv 1 s))"
    using insert_walk_run [OF inv0, of m k] n by simp
  have "safe_read m Head s = Inr (head s, adj (head s) 1 s)"
    using safe_read_some [of m s Head] n h by simp
  moreover have "read_next m (head s) (adj (head s) 1 s)
      = Inr (hd (ps @ [tail s]), adj (hd (ps @ [tail s])) 1 (adj (head s) 1 s))"
    using read_next_some [of m "adj (head s) 1 s" "head s"] n h x0 inv_head_next [OF inv]
    by simp
  ultimately show ?thesis
    using walk p(1) pv(1-3) nd(1-3) ne link n count_offsets [OF pv(4)] count_offsets [OF nd(4)]
    by (simp add: insert_loop.simps compare_exchange_def release_keep)
qed

lemma node_update_swap_key:
  "key_update f (counter_update g nd) = counter_update g (key_update f nd)"
  by (cases nd) simp

lemma adj_set_key [simp]: "set_key q k (adj p d s) = adj p d (set_key q k s)"
  by (cases "heap s p"; cases "heap s q"; cases "p = q")
    (simp_all add: adj_def set_key_def fun_upd_twist node_update_swap_key)

lemma allocated_fields [simp]:
  "head (allocated p v k s) = head s" "tail (allocated p v k s) = tail s"
  "free_list (allocated p v k s) = free_list s" "fresh (allocated p v k s) = tl (fresh s)"
  "(heap (allocated p v k s) q = None) = (q \<noteq> p \<and> heap s q = None)"
  "nxt_of (allocated p v k s) q = (if q = p then 0 else nxt_of s q)"
  "key_of (allocated p v k s) q = (if q = p then k else key_of s q)"
  "val_of (allocated p v k s) q = (if q = p then v else val_of s q)"
  "counter_of (allocated p v k s) q = (if q = p then 1 else counter_of s q)"
  by (simp_all add: allocated_def nxt_of_def key_of_def val_of_def counter_of_def)

lemma recycled_fields [simp]:
  "head (recycled p v k s) = head s" "tail (recycled p v k s) = tail s"
  "free_list (recycled p v k s) = nxt_of s p" "fresh (recycled p v k s) = fresh s"
  "(heap (recycled p v k s) q = None) = (heap s q = None)"
  "nxt_of (recycled p v k s) q = nxt_of s q"
  "key_of (recycled p v k s) q = (if q = p \<and> heap s p \<noteq> None then k else key_of s q)"
  "val_of (recycled p v k s) q = (if q = p \<and> heap s p \<noteq> None then v else val_of s q)"
  "counter_of (recycled p v k s) q =
     (if q = p \<and> heap s p \<noteq> None then counter_of s p + 2 else counter_of s q)"
  by (auto simp: recycled_def)

lemma inv_free:
  assumes "pq_inv s ps (f # fs)"
  shows "free_list s = f" "f \<noteq> 0" "\<not> is_marked f" "heap s f \<noteq> None" "counter_of s f = 0"
    "nxt_of s f = hd (fs @ [0])" "f \<notin> set (head s # ps @ tail s # fs @ map fst (fresh s))"
  using assms by (auto simp: pq_inv_def successively_Cons hd_append uncounted_iff linked_iff)

lemma inv_fresh:
  assumes "pq_inv s ps fs" "fresh s = (p, raw) # rest"
  shows "heap s p = None" "p \<noteq> 0" "\<not> is_marked p"
    "p \<notin> set (head s # ps @ tail s # fs @ map fst rest)"
  using assms by (auto simp: pq_inv_def)


lemma get_new_node_fresh:
  assumes "pq_inv s ps []" "fresh s = (p, raw) # rest" "2 \<le> n"
  shows "get_new_node n v k s = Inr (p, allocated p v k s)"
proof -
  from assms(3) obtain m where "n = Suc (Suc m)"
    by (auto dest: ge2D)
  moreover have "free_list s = 0"
    using assms(1) by (simp add: pq_inv_def)
  ultimately show ?thesis
    using assms(2) by (simp add: get_new_node.simps safe_read_null new_Node_def allocated_def)
qed

lemma get_new_node_recycle:
  assumes "pq_inv s ps (f # fs)" "2 \<le> n"
  shows "get_new_node n v k s = Inr (f, recycled f v k s)"
proof -
  from assms(2) obtain m where n: "n = Suc (Suc m)"
    by (auto dest: ge2D)
  note f = inv_free [OF assms(1)]
  have "safe_read (Suc m) FreeList s = Inr (f, adj f 1 s)"
    using safe_read_some [of "Suc m" s FreeList] f by simp
  then show ?thesis
    using n f(1-4) by (simp add: get_new_node.simps compare_exchange_def recycled_def)
qed

text \<open>
  The invariant survives when a prefix of the free list and a prefix of the allocator's
  supply are taken away and the remaining nodes read as before.
\<close>

lemma pq_inv_shrink:
  assumes inv: "pq_inv s ps (gs @ fs')"
    and fields: "head s' = head s" "tail s' = tail s" "free_list s' = hd (fs' @ [0])"
      "fresh s = pre @ fresh s'"
    and alloc: "\<And>q. q \<in> set (head s # ps @ tail s # fs') \<Longrightarrow> heap s' q \<noteq> None"
      "\<And>q. q \<in> set (map fst (fresh s')) \<Longrightarrow> heap s' q = None"
    and same: "\<And>q. q \<in> set (head s # ps @ tail s # fs') \<Longrightarrow>
      nxt_of s' q = nxt_of s q \<and> counter_of s' q = counter_of s q \<and> key_of s' q = key_of s q"
  shows "pq_inv s' ps fs'"
proof (rule pq_invI)
  note d = pq_invD [OF inv]
  show "distinct (head s' # ps @ tail s' # fs' @ map fst (fresh s'))"
    using d(1) by (simp add: fields(1,2,4)) blast
  show "\<forall>p \<in> set (head s' # ps @ tail s' # fs' @ map fst (fresh s')). p \<noteq> 0 \<and> \<not> is_marked p"
    using d(2) by (simp add: fields(1,2,4)) blast
  have "successively (linked s') (head s # ps @ [tail s, 0])"
    using d(3)
  proof (rule successively_linked_frame)
    fix a assume "a \<in> set (butlast (head s # ps @ [tail s, 0]))"
    then have a: "a \<in> set (head s # ps @ tail s # fs')"
      by (auto simp: butlast_append)
    from alloc(1) [OF a] same [OF a] show "heap s' a \<noteq> None \<and> nxt_of s' a = nxt_of s a"
      by simp
  qed
  then show "successively (linked s') (head s' # ps @ [tail s', 0])"
    by (simp add: fields)
  show "\<forall>p \<in> set (head s' # ps @ [tail s']). counted s' p"
  proof
    fix p assume "p \<in> set (head s' # ps @ [tail s'])"
    then have p: "p \<in> set (head s # ps @ [tail s])" "p \<in> set (head s # ps @ tail s # fs')"
      by (auto simp: fields)
    from inv_node(4) [OF inv p(1)] alloc(1) [OF p(2)] same [OF p(2)] show "counted s' p"
      by (simp add: counted_iff)
  qed
  show "free_list s' = hd (fs' @ [0])"
    by (rule fields)
  have "successively (linked s) (fs' @ [0])"
    using d(6) by (simp add: successively_append_iff)
  then show "successively (linked s') (fs' @ [0])"
  proof (rule successively_linked_frame)
    fix a assume "a \<in> set (butlast (fs' @ [0]))"
    then have a: "a \<in> set (head s # ps @ tail s # fs')"
      by simp
    from alloc(1) [OF a] same [OF a] show "heap s' a \<noteq> None \<and> nxt_of s' a = nxt_of s a"
      by simp
  qed
  show "\<forall>p \<in> set fs'. uncounted s' p"
  proof
    fix p assume "p \<in> set fs'"
    then have p: "p \<in> set (gs @ fs')" "p \<in> set (head s # ps @ tail s # fs')"
      by auto
    from d(7) p(1) alloc(1) [OF p(2)] same [OF p(2)] show "uncounted s' p"
      by (auto simp: uncounted_iff)
  qed
  show "\<forall>p \<in> set (map fst (fresh s')). heap s' p = None"
    using alloc(2) by blast
  have keq: "map (key_of s') ps = map (key_of s) ps"
    by (simp add: same)
  show "sorted_wrt (\<ge>) (map (key_of s') ps)"
    using d(9) by (simp only: keq)
qed

lemma inv_allocated:
  assumes "pq_inv s ps []" "fresh s = (p, raw) # rest"
  shows "pq_inv (allocated p v k s) ps []"
proof (rule pq_inv_shrink [where gs = "[]" and pre = "[(p, raw)]"])
  note p = inv_fresh [OF assms] and d = pq_invD [OF assms(1)]
  show "pq_inv s ps ([] @ [])"
    using assms(1) by simp
  show "free_list (allocated p v k s) = hd ([] @ [0])"
    using d(5) by simp
  show "fresh s = [(p, raw)] @ fresh (allocated p v k s)"
    using assms(2) by simp
  show "heap (allocated p v k s) q \<noteq> None" if "q \<in> set (head s # ps @ tail s # [])" for q
    using inv_node(1) [OF assms(1), of q] that by auto
  show "heap (allocated p v k s) q = None" if "q \<in> set (map fst (fresh (allocated p v k s)))" for q
    using that d(1,8) assms(2) by auto
  show "nxt_of (allocated p v k s) q = nxt_of s q \<and>
      counter_of (allocated p v k s) q = counter_of s q \<and>
      key_of (allocated p v k s) q = key_of s q" if "q \<in> set (head s # ps @ tail s # [])" for q
    using that p(4) by auto
qed simp_all

lemma inv_recycled:
  assumes "pq_inv s ps (f # fs)"
  shows "pq_inv (recycled f v k s) ps fs"
proof (rule pq_inv_shrink [where gs = "[f]" and pre = "[]"])
  note f = inv_free [OF assms] and d = pq_invD [OF assms]
  show "pq_inv s ps ([f] @ fs)"
    using assms by simp
  show "free_list (recycled f v k s) = hd (fs @ [0])"
    using f by simp
  show "heap (recycled f v k s) q \<noteq> None" if "q \<in> set (head s # ps @ tail s # fs)" for q
    using inv_node(1) [OF assms, of q] that d(7) by (auto simp: uncounted_iff)
  show "heap (recycled f v k s) q = None" if "q \<in> set (map fst (fresh (recycled f v k s)))" for q
    using that d(8) by auto
  show "nxt_of (recycled f v k s) q = nxt_of s q \<and>
      counter_of (recycled f v k s) q = counter_of s q \<and>
      key_of (recycled f v k s) q = key_of s q" if "q \<in> set (head s # ps @ tail s # fs)" for q
    using that f(7) by auto
qed simp_all

lemma sorted_dropWhile_below:
  fixes f :: "'a \<Rightarrow> int"
  assumes "sorted_wrt (\<ge>) (map f ps)" "y \<in> set (dropWhile (\<lambda>q. k \<le> f q) ps)"
  shows "f y < k"
proof -
  let ?ys = "dropWhile (\<lambda>q. k \<le> f q) ps"
  from assms(2) obtain z zs where ys: "?ys = z # zs"
    by (cases ?ys) auto
  then have z: "\<not> k \<le> f z"
    using hd_dropWhile [of "\<lambda>q. k \<le> f q" ps] by auto
  have "sorted_wrt (\<ge>) (map f (takeWhile (\<lambda>q. k \<le> f q) ps @ ?ys))"
    using assms(1) by simp
  then have "sorted_wrt (\<ge>) (map f (z # zs))"
    unfolding map_append sorted_wrt_append ys by blast
  with assms(2) ys have "f y \<le> f z"
    by auto
  with z show ?thesis
    by simp
qed

text \<open>Linking a counted node that is in none of the lists behind the last key not below its own.\<close>

lemma inv_splice:
  assumes inv: "pq_inv s ps fs"
    and p: "heap s p \<noteq> None" "p \<noteq> 0" "\<not> is_marked p"
      "counter_of s p = 1 \<or> counter_of s p = 2"
      "p \<notin> set (head s # ps @ tail s # fs @ map fst (fresh s))"
    and xs: "xs = takeWhile (\<lambda>q. key_of s p \<le> key_of s q) ps"
    and ys: "ys = dropWhile (\<lambda>q. key_of s p \<le> key_of s q) ps"
    and s': "s' = set_nxt (last (head s # xs)) p (set_nxt p (hd (ys @ [tail s])) s)"
  shows "pq_inv s' (xs @ p # ys) fs"
proof (rule pq_invI)
  have ps: "ps = xs @ ys"
    by (simp add: xs ys)
  note inv' = inv [unfolded ps]
  note d = pq_invD [OF inv']
  let ?pv = "last (head s # xs)" and ?nd = "hd (ys @ [tail s])"
  note l = inv_last [OF inv']
  have pv_in: "?pv \<in> set (head s # xs)"
    by (rule last_in_set) simp
  have pv: "?pv \<noteq> p" "heap s ?pv \<noteq> None"
    using p(5) l(1) inv_node(1) [OF inv' l(1)] by (auto simp: ps)
  have fields: "head s' = head s" "tail s' = tail s" "free_list s' = free_list s"
    "fresh s' = fresh s"
    by (simp_all add: s')
  have alloc: "(heap s' q = None) = (heap s q = None)" for q
    by (simp add: s')
  have same: "counter_of s' = counter_of s" "key_of s' = key_of s"
    by (rule ext, simp add: s')+
  have nx: "nxt_of s' ?pv = p" "nxt_of s' p = ?nd"
    "\<And>q. q \<noteq> ?pv \<Longrightarrow> q \<noteq> p \<Longrightarrow> nxt_of s' q = nxt_of s q"
    using pv p(1) by (simp_all add: s')
  show "distinct (head s' # (xs @ p # ys) @ tail s' # fs @ map fst (fresh s'))"
    using d(1) p(5) by (auto simp: fields ps)
  show "\<forall>q \<in> set (head s' # (xs @ p # ys) @ tail s' # fs @ map fst (fresh s')).
      q \<noteq> 0 \<and> \<not> is_marked q"
    using d(2) p(2,3) by (auto simp: fields)
  have split: "successively (linked s) (head s # xs)" "successively (linked s) (ys @ [tail s, 0])"
    using d(3) successively_append_iff [of "linked s" "head s # xs" "ys @ [tail s, 0]"] by simp_all
  have 1: "successively (linked s') (head s # xs)"
    using split(1)
  proof (rule successively_linked_frame)
    fix a assume a: "a \<in> set (butlast (head s # xs))"
    then have "a \<in> set (head s # xs)"
      by (rule in_set_butlastD)
    then have "a \<in> set (head s # (xs @ ys) @ [tail s])"
      by auto
    moreover have "a \<noteq> ?pv"
      using a d(1) distinct_butlast [of "head s # xs"]
      by (metis append_butlast_last_id distinct.simps(2) distinct_append list.distinct(1)
          not_distinct_conv_prefix append.assoc append_Cons)
    moreover have "a \<noteq> p"
      using \<open>a \<in> set (head s # xs)\<close> p(5) by (auto simp: ps)
    ultimately show "heap s' a \<noteq> None \<and> nxt_of s' a = nxt_of s a"
      using inv_node(1) [OF inv'] by (simp add: alloc nx)
  qed
  have 2: "successively (linked s') (ys @ [tail s, 0])"
    using split(2)
  proof (rule successively_linked_frame)
    fix a assume "a \<in> set (butlast (ys @ [tail s, 0]))"
    then have a: "a \<in> set (ys @ [tail s])"
      by (simp add: butlast_append)
    then have "a \<in> set (head s # (xs @ ys) @ [tail s])"
      by auto
    moreover have "a \<noteq> ?pv"
      using a pv_in d(1) by auto
    moreover have "a \<noteq> p"
      using a p(5) by (auto simp: ps)
    ultimately show "heap s' a \<noteq> None \<and> nxt_of s' a = nxt_of s a"
      using inv_node(1) [OF inv'] by (simp add: alloc nx)
  qed
  have 3: "linked s' ?pv p" "linked s' p (hd (ys @ [tail s, 0]))"
    using pv p(1) nx by (simp_all add: linked_iff alloc hd_append)
  have "successively (linked s') ((head s # xs) @ (p # ys @ [tail s, 0]))"
    unfolding successively_append_iff using 1 2 3 by (simp add: successively_Cons)
  then show "successively (linked s') (head s' # (xs @ p # ys) @ [tail s', 0])"
    by (simp add: fields)
  show "\<forall>q \<in> set (head s' # (xs @ p # ys) @ [tail s']). counted s' q"
    using d(4) p(1,4) by (auto simp: fields counted_iff alloc same)
  show "free_list s' = hd (fs @ [0])"
    using d(5) by (simp add: fields)
  show "successively (linked s') (fs @ [0])"
    using d(6)
  proof (rule successively_linked_frame)
    fix a assume "a \<in> set (butlast (fs @ [0]))"
    then have a: "a \<in> set fs"
      by simp
    then have "a \<noteq> ?pv" "a \<noteq> p"
      using pv_in d(1) p(5) by auto
    then show "heap s' a \<noteq> None \<and> nxt_of s' a = nxt_of s a"
      using d(7) a by (auto simp: alloc nx uncounted_iff)
  qed
  show "\<forall>q \<in> set fs. uncounted s' q"
    using d(7) by (auto simp: uncounted_iff alloc same)
  show "\<forall>q \<in> set (map fst (fresh s')). heap s' q = None"
    using d(8) by (simp add: fields alloc)
  have "\<forall>x \<in> set xs. key_of s p \<le> key_of s x"
    unfolding xs by (auto dest: set_takeWhileD)
  moreover have "\<forall>y \<in> set ys. key_of s y \<le> key_of s p"
    using sorted_dropWhile_below [OF pq_invD(9) [OF inv], of _ "key_of s p"]
    unfolding ys by force
  ultimately show "sorted_wrt (\<ge>) (map (key_of s') (xs @ p # ys))"
    using d(9) by (auto simp: same sorted_wrt_append)
qed

lemma abs_insert_entries:
  "abs_insert k v (entries s ps)
   = entries s (takeWhile (\<lambda>q. k \<le> key_of s q) ps) @ (k, v)
     # entries s (dropWhile (\<lambda>q. k \<le> key_of s q) ps)"
  by (simp add: abs_insert_def entries_def takeWhile_map dropWhile_map comp_def)

lemma entries_set_nxt [simp]: "entries (set_nxt a b s) ps = entries s ps"
  by (simp add: entries_def)

lemma insert_loop_refines:
  assumes inv: "pq_inv s ps fs"
    and p: "heap s p \<noteq> None" "p \<noteq> 0" "\<not> is_marked p"
      "counter_of s p = 1 \<or> counter_of s p = 2"
      "p \<notin> set (head s # ps @ tail s # fs @ map fst (fresh s))"
      "key_of s p = k" "val_of s p = v"
    and fuel: "length ps + 5 \<le> n"
  shows "\<exists>s' ps'. insert_loop n k p s = Inr ((), s') \<and> pq_inv s' ps' fs
    \<and> entries s' ps' = abs_insert k v (entries s ps) \<and> same_sentinels s s'
    \<and> fresh s' = fresh s"
proof -
  let ?xs = "takeWhile (\<lambda>q. k \<le> key_of s q) ps" and ?ys = "dropWhile (\<lambda>q. k \<le> key_of s q) ps"
  let ?s = "set_nxt (last (head s # ?xs)) p (set_nxt p (hd (?ys @ [tail s])) s)"
  have "p \<notin> set (head s # ps @ [tail s])"
    using p(5) by auto
  then have run: "insert_loop n k p s = Inr ((), ?s)"
    using insert_loop_run [OF inv p(1) _ fuel, of k] by simp
  have "pq_inv ?s (?xs @ p # ?ys) fs"
    using inv p(1-5) by (rule inv_splice) (simp_all add: p(6))
  moreover have "entries ?s (?xs @ p # ?ys) = abs_insert k v (entries s ps)"
    by (simp add: abs_insert_entries p)
  moreover have "same_sentinels s ?s"
    by (simp add: same_sentinels_def)
  ultimately show ?thesis
    using run by auto
qed



lemma example_empty_inv: "pq_inv example_empty [] []"
  by (simp add: pq_inv_def example_empty_def linked_def counted_def is_marked_def)

text \<open>
  C6, for \<open>pop()\<close>. On a queue whose list holds only the two sentinels, \<open>pop()\<close> returns
  null and leaves the state as it was; so does every further call. (\<open>pop(t)\<close> cannot be
  called: see the note at \<open>pop_loop\<close>.)
\<close>

theorem pop_on_empty_queue:
  assumes "pq_inv s [] fs" "3 \<le> n"
  shows "pop n s = Inr (0, s)
    \<and> bnd (pop n s) (\<lambda>_ s'. pop n s') = Inr (0, s)"
  using assms by (simp add: pop_empty)

theorem pop_on_empty_queue_witness:
  "pq_inv example_empty [] [] \<and> (3 :: nat) \<le> 3
   \<and> pop 3 example_empty = Inr (0, example_empty)
   \<and> bnd (pop 3 example_empty) (\<lambda>_ s'. pop 3 s') = Inr (0, example_empty)"
  using pop_on_empty_queue [OF example_empty_inv, of 3] by (simp add: example_empty_inv)

lemma priority_queue_inv:
  assumes "supply_ok blocks" "2 \<le> length blocks"
  shows "\<exists>s. priority_queue blocks = Inr ((), s) \<and> pq_inv s [] []
    \<and> fresh s = drop 2 blocks \<and> key_of s (head s) = key_max \<and> key_of s (tail s) = key_min"
proof -
  from assms(2) obtain a b rest where sup: "blocks = a # b # rest"
    by (cases blocks; cases "tl blocks") auto
  obtain t rt h rh where ab: "a = (t, rt)" "b = (h, rh)"
    by (cases a; cases b) auto
  show ?thesis
    using assms(1) unfolding sup ab
    by (auto simp: priority_queue_def new_Node_def store_def supply_ok_def pq_inv_def
        linked_def counted_def key_of_def)
qed

lemma insert_refines_supply:
  assumes inv: "pq_inv s ps fs" and fuel: "length ps + 6 \<le> n"
    and avail: "fs \<noteq> [] \<or> fresh s \<noteq> []"
  shows "\<exists>s' ps' fs'. insert_pq n v k s = Inr ((), s') \<and> pq_inv s' ps' fs'
      \<and> entries s' ps' = abs_insert k v (entries s ps) \<and> same_sentinels s s'
      \<and> length fs' + length (fresh s') + 1 = length fs + length (fresh s)"
proof (cases fs)
  case Nil
  with avail obtain p raw rest where fr: "fresh s = (p, raw) # rest"
    by (cases "fresh s") auto
  note inv0 = inv [unfolded Nil]
  let ?s = "allocated p v k s"
  note f = inv_fresh [OF inv0 fr]
  have g: "get_new_node n v k s = Inr (p, ?s)"
    using inv0 fr fuel by (intro get_new_node_fresh) auto
  have "\<exists>s' ps'. insert_loop n k p ?s = Inr ((), s') \<and> pq_inv s' ps' []
    \<and> entries s' ps' = abs_insert k v (entries ?s ps) \<and> same_sentinels ?s s'
    \<and> fresh s' = fresh ?s"
    using inv_allocated [OF inv0 fr] fuel f
    by (intro insert_loop_refines) (auto simp: fr)
  then obtain s' ps' where r: "insert_loop n k p ?s = Inr ((), s')" "pq_inv s' ps' []"
    "entries s' ps' = abs_insert k v (entries ?s ps)" "same_sentinels ?s s'"
    "fresh s' = fresh ?s"
    by blast
  have "entries ?s ps = entries s ps"
    using f(4) by (intro entries_frame) auto
  moreover have "same_sentinels s ?s"
    using f(4) by (auto simp: same_sentinels_def)
  ultimately have "insert_pq n v k s = Inr ((), s') \<and> pq_inv s' ps' []
    \<and> entries s' ps' = abs_insert k v (entries s ps) \<and> same_sentinels s s'
    \<and> length ([] :: ptr list) + length (fresh s') + 1 = length fs + length (fresh s)"
    using g r Nil fr by (simp add: insert_pq_def same_sentinels_trans [OF _ r(4)])
  then show ?thesis
    by blast
next
  case (Cons f fs')
  note inv0 = inv [unfolded Cons]
  let ?s = "recycled f v k s"
  note f = inv_free [OF inv0]
  have g: "get_new_node n v k s = Inr (f, ?s)"
    using inv0 fuel by (intro get_new_node_recycle) auto
  have "\<exists>s' ps'. insert_loop n k f ?s = Inr ((), s') \<and> pq_inv s' ps' fs'
    \<and> entries s' ps' = abs_insert k v (entries ?s ps) \<and> same_sentinels ?s s'
    \<and> fresh s' = fresh ?s"
    using inv_recycled [OF inv0] fuel f
    by (intro insert_loop_refines) auto
  then obtain s' ps' where r: "insert_loop n k f ?s = Inr ((), s')" "pq_inv s' ps' fs'"
    "entries s' ps' = abs_insert k v (entries ?s ps)" "same_sentinels ?s s'"
    "fresh s' = fresh ?s"
    by blast
  have "entries ?s ps = entries s ps"
    using f(7) by (intro entries_frame) auto
  moreover have "same_sentinels s ?s"
    using f(7) by (auto simp: same_sentinels_def)
  ultimately have "insert_pq n v k s = Inr ((), s') \<and> pq_inv s' ps' fs'
    \<and> entries s' ps' = abs_insert k v (entries s ps) \<and> same_sentinels s s'
    \<and> length fs' + length (fresh s') + 1 = length fs + length (fresh s)"
    using g r Cons by (simp add: insert_pq_def same_sentinels_trans [OF _ r(4)])
  then show ?thesis
    by blast
qed

lemma length_entries [simp]: "length (entries s ps) = length ps"
  by (simp add: entries_def)

lemma length_abs_insert [simp]: "length (abs_insert k v es) = Suc (length es)"
proof -
  have "length (takeWhile (\<lambda>e. k \<le> fst e) es) + length (dropWhile (\<lambda>e. k \<le> fst e) es) = length es"
    by (metis length_append takeWhile_dropWhile_id)
  then show ?thesis
    by (simp add: abs_insert_def)
qed

lemma insert_all_refines:
  assumes "pq_inv s ps fs" "length ps + length xs + 6 \<le> n"
    "length xs \<le> length fs + length (fresh s)"
  shows "\<exists>s' ps' fs'. insert_all n xs s = Inr ((), s') \<and> pq_inv s' ps' fs'
      \<and> entries s' ps' = insert_entries (entries s ps) xs \<and> same_sentinels s s'"
  using assms
proof (induction xs arbitrary: s ps fs)
  case Nil
  then show ?case
    by (auto simp: insert_entries_def)
next
  case (Cons x xs)
  obtain v k where x: "x = (v, k)"
    by (cases x)
  from Cons.prems have "fs \<noteq> [] \<or> fresh s \<noteq> []" "length ps + 6 \<le> n"
    by auto
  from insert_refines_supply [OF Cons.prems(1) this(2,1), of v k]
  obtain s1 ps1 fs1 where s1: "insert_pq n v k s = Inr ((), s1)" "pq_inv s1 ps1 fs1"
    "entries s1 ps1 = abs_insert k v (entries s ps)" "same_sentinels s s1"
    "length fs1 + length (fresh s1) + 1 = length fs + length (fresh s)"
    by blast
  from s1(3) have len: "length ps1 = Suc (length ps)"
    by (metis length_entries length_abs_insert)
  have "\<exists>s' ps' fs'. insert_all n xs s1 = Inr ((), s') \<and> pq_inv s' ps' fs'
      \<and> entries s' ps' = insert_entries (entries s1 ps1) xs \<and> same_sentinels s1 s'"
    using s1(2) Cons.prems(2,3) s1(5) len by (intro Cons.IH) auto
  then show ?case
    using s1 by (auto simp: x insert_entries_def dest: same_sentinels_trans)
qed

subsection \<open>Draining\<close>

lemma live_Cons [simp]:
  "live (e # es) = (if is_marked (snd e) then live es else e # live es)"
  by (simp add: live_def)

lemma live_Nil [simp]: "live [] = []"
  by (simp add: live_def)

lemma is_marked_get_marked [simp]: "is_marked (get_marked v)"
  using tagged_pointer_laws [of v v] by simp

lemma abs_pop_live:
  "fst (abs_pop es) = (case live es of [] \<Rightarrow> 0 | e # _ \<Rightarrow> snd e)"
  "live (snd (abs_pop es)) = tl (live es)"
  "length (snd (abs_pop es)) \<le> length es"
  by (induction es rule: abs_pop.induct; auto)+

lemma drain_refines:
  assumes "pq_inv s ps fs" "\<forall>e \<in> set (live (entries s ps)). snd e \<noteq> 0"
    "length ps + length (live (entries s ps)) + 7 \<le> n"
  shows "\<exists>s' ps' fs'. drain n s = Inr (map snd (live (entries s ps)), s')
    \<and> pq_inv s' ps' fs' \<and> same_sentinels s s' \<and> live (entries s' ps') = []"
  using assms
proof (induction "length (live (entries s ps))" arbitrary: s ps fs n)
  case 0
  then obtain m where n: "n = Suc m" "length ps + 6 \<le> m"
    by (cases n) auto
  from pop_refines [OF "0.prems"(1) n(2)] obtain s' ps' fs' where
    r: "pop m s = Inr (fst (abs_pop (entries s ps)), s')" "pq_inv s' ps' fs'"
    "entries s' ps' = snd (abs_pop (entries s ps))" "same_sentinels s s'"
    by blast
  from 0 have l: "live (entries s ps) = []"
    by simp
  then have "fst (abs_pop (entries s ps)) = 0" "live (entries s' ps') = []"
    by (simp_all add: abs_pop_live r(3))
  then have "drain n s = Inr (map snd (live (entries s ps)), s') \<and> pq_inv s' ps' fs'
      \<and> same_sentinels s s' \<and> live (entries s' ps') = []"
    using r(1,2,4) l by (simp add: n(1) drain.simps)
  then show ?case
    by blast
next
  case (Suc l)
  then obtain m where n: "n = Suc m" "length ps + 6 \<le> m"
    by (cases n) auto
  from pop_refines [OF Suc.prems(1) n(2)] obtain s' ps' fs' where
    r: "pop m s = Inr (fst (abs_pop (entries s ps)), s')" "pq_inv s' ps' fs'"
    "entries s' ps' = snd (abs_pop (entries s ps))" "same_sentinels s s'"
    by blast
  from Suc(2) obtain e rest where e: "live (entries s ps) = e # rest" "length rest = l"
    by (cases "live (entries s ps)") auto
  with Suc.prems(2) have nz: "snd e \<noteq> 0" "\<forall>e \<in> set rest. snd e \<noteq> 0"
    by auto
  have "length (entries s' ps') \<le> length (entries s ps)"
    unfolding r(3) by (rule abs_pop_live(3))
  then have len: "length ps' \<le> length ps"
    by simp
  have "live (entries s' ps') = rest" "fst (abs_pop (entries s ps)) = snd e"
    using abs_pop_live(1,2) [of "entries s ps"] e(1) by (simp_all add: r(3))
  note l' = this(1) len this(2)
  have "\<exists>s'' ps'' fs''. drain m s' = Inr (map snd (live (entries s' ps')), s'')
    \<and> pq_inv s'' ps'' fs'' \<and> same_sentinels s' s'' \<and> live (entries s'' ps'') = []"
  proof (rule Suc(1))
    show "l = length (live (entries s' ps'))"
      by (simp add: l'(1) e(2))
    show "pq_inv s' ps' fs'"
      by (rule r(2))
    show "\<forall>e \<in> set (live (entries s' ps')). snd e \<noteq> 0"
      using nz(2) by (simp add: l'(1))
    show "length ps' + length (live (entries s' ps')) + 7 \<le> m"
      using Suc.prems(3) l'(2) e n(1) by (simp add: l'(1))
  qed
  then obtain s'' ps'' fs'' where d: "drain m s' = Inr (map snd rest, s'')"
    "pq_inv s'' ps'' fs''" "same_sentinels s' s''" "live (entries s'' ps'') = []"
    unfolding l'(1) by blast
  have "drain n s = Inr (map snd (live (entries s ps)), s'') \<and> pq_inv s'' ps'' fs''
      \<and> same_sentinels s s'' \<and> live (entries s'' ps'') = []"
    using r(1) d nz(1) same_sentinels_trans [OF r(4) d(3)]
    by (simp add: n(1) drain.simps l'(3) e(1))
  then show ?case
    by blast
qed

subsection \<open>The entries after a sequence of inserts\<close>

lemma abs_insert_props:
  "mset (abs_insert k v es) = add_mset (k, v) (mset es)"
  "sorted_wrt (\<ge>) (map fst es) \<Longrightarrow> sorted_wrt (\<ge>) (map fst (abs_insert k v es))"
  "\<not> is_marked v \<Longrightarrow> live es = es \<Longrightarrow> live (abs_insert k v es) = abs_insert k v es"
proof -
  let ?xs = "takeWhile (\<lambda>e. k \<le> fst e) es" and ?ys = "dropWhile (\<lambda>e. k \<le> fst e) es"
  have es: "es = ?xs @ ?ys"
    by simp
  have "mset es = mset ?xs + mset ?ys"
    by (metis es mset_append)
  then show "mset (abs_insert k v es) = add_mset (k, v) (mset es)"
    by (simp add: abs_insert_def)
  show "sorted_wrt (\<ge>) (map fst (abs_insert k v es))" if "sorted_wrt (\<ge>) (map fst es)"
  proof -
    from that have "sorted_wrt (\<ge>) (map fst (?xs @ ?ys))"
      by simp
    then have s: "sorted_wrt (\<ge>) (map fst ?xs)" "sorted_wrt (\<ge>) (map fst ?ys)"
      "\<forall>x \<in> set ?xs. \<forall>y \<in> set ?ys. fst y \<le> fst x"
      unfolding map_append sorted_wrt_append by auto
    have "\<forall>x \<in> set ?xs. k \<le> fst x"
      by (auto dest: set_takeWhileD)
    moreover have "\<forall>y \<in> set ?ys. fst y \<le> k"
      using sorted_dropWhile_below [OF that, of _ k] by force
    ultimately show ?thesis
      using s by (auto simp: abs_insert_def sorted_wrt_append)
  qed
  show "live (abs_insert k v es) = abs_insert k v es" if "\<not> is_marked v" "live es = es"
  proof -
    from that(2) have "\<forall>e \<in> set es. \<not> is_marked (snd e)"
      unfolding live_def by (metis filter_id_conv)
    then have "\<forall>e \<in> set (abs_insert k v es). \<not> is_marked (snd e)"
      using that(1) by (auto simp: abs_insert_def dest: set_takeWhileD set_dropWhileD)
    then show ?thesis
      unfolding live_def by (simp add: filter_id_conv)
  qed
qed

lemma insert_entries_props:
  assumes "\<forall>(v, k) \<in> set xs. v \<noteq> 0 \<and> \<not> is_marked v"
  shows "mset (insert_entries [] xs) = mset (map (\<lambda>(v, k). (k, v)) xs)"
    "sorted_wrt (\<ge>) (map fst (insert_entries [] xs))"
    "live (insert_entries [] xs) = insert_entries [] xs"
    "\<forall>e \<in> set (insert_entries [] xs). snd e \<noteq> 0"
proof -
  have gen: "mset (insert_entries es xs) = mset es + mset (map (\<lambda>(v, k). (k, v)) xs)
      \<and> (sorted_wrt (\<ge>) (map fst es) \<longrightarrow> sorted_wrt (\<ge>) (map fst (insert_entries es xs)))
      \<and> (live es = es \<longrightarrow> live (insert_entries es xs) = insert_entries es xs)" for es
    using assms
  proof (induction xs arbitrary: es)
    case Nil
    then show ?case by (simp add: insert_entries_def)
  next
    case (Cons x xs)
    obtain v k where x: "x = (v, k)"
      by (cases x)
    from Cons.prems have v: "\<not> is_marked v" and rest: "\<forall>(v, k) \<in> set xs. v \<noteq> 0 \<and> \<not> is_marked v"
      by (auto simp: x)
    have unfold: "insert_entries es (x # xs) = insert_entries (abs_insert k v es) xs"
      by (simp add: insert_entries_def x)
    show ?case
      unfolding unfold
      using Cons.IH [OF rest, of "abs_insert k v es"] abs_insert_props [where k = k and v = v and es = es] v
      by (simp add: x)
  qed
  from gen [of "[]"] show "mset (insert_entries [] xs) = mset (map (\<lambda>(v, k). (k, v)) xs)"
    "sorted_wrt (\<ge>) (map fst (insert_entries [] xs))"
    "live (insert_entries [] xs) = insert_entries [] xs"
    by simp_all
  then have "set (insert_entries [] xs) = set (map (\<lambda>(v, k). (k, v)) xs)"
    by (metis set_mset_mset)
  with assms show "\<forall>e \<in> set (insert_entries [] xs). snd e \<noteq> 0"
    by auto
qed

lemma length_insert_entries [simp]: "length (insert_entries es xs) = length es + length xs"
  by (induction xs arbitrary: es) (auto simp: insert_entries_def)

lemma insert_then_drain_refines:
  assumes "supply_ok blocks" "length xs + 2 \<le> length blocks"
    "\<forall>(v, k) \<in> set xs. v \<noteq> 0 \<and> \<not> is_marked v" "2 * length xs + 7 \<le> n"
  shows "\<exists>s. insert_then_drain blocks n xs = Inr (map snd (insert_entries [] xs), s)"
proof -
  from priority_queue_inv [OF assms(1)] assms(2) obtain s0 where
    s0: "priority_queue blocks = Inr ((), s0)" "pq_inv s0 [] []" "fresh s0 = drop 2 blocks"
    by auto
  have "\<exists>s' ps' fs'. insert_all n xs s0 = Inr ((), s') \<and> pq_inv s' ps' fs'
      \<and> entries s' ps' = insert_entries (entries s0 []) xs \<and> same_sentinels s0 s'"
    using s0(2,3) assms(2,4) by (intro insert_all_refines) auto
  then obtain s1 ps1 fs1 where s1: "insert_all n xs s0 = Inr ((), s1)" "pq_inv s1 ps1 fs1"
    "entries s1 ps1 = insert_entries [] xs"
    by auto
  note props = insert_entries_props [OF assms(3)]
  from s1(3) have len: "length ps1 = length xs"
    by (metis length_entries length_insert_entries list.size(3) add_0)
  have "\<exists>s' ps' fs'. drain n s1 = Inr (map snd (live (entries s1 ps1)), s')
    \<and> pq_inv s' ps' fs' \<and> same_sentinels s1 s' \<and> live (entries s' ps') = []"
    using s1(2) props(3,4) assms(4) len by (intro drain_refines) (auto simp: s1(3))
  then show ?thesis
    using s0(1) s1(1) props(3) by (auto simp: insert_then_drain_def s1(3))
qed

lemma example_supply_ok: "supply_ok example_supply"
  by (simp add: supply_ok_def example_supply_def is_marked_def)

lemma example_one_inv: "pq_inv example_one [96] []"
  by (simp add: pq_inv_def example_one_def linked_def counted_def is_marked_def key_of_def)

lemma example_one_entries: "entries example_one [96] = [(5, 4096)]"
  by (simp add: example_one_def key_of_def val_of_def)

lemma inv_sorted_entries: "pq_inv s ps fs \<Longrightarrow> sorted_wrt (\<ge>) (map fst (entries s ps))"
  by (simp add: pq_inv_def entries_def comp_def)

text \<open>
  C2. For every sequence of inserts by one thread into a new queue (payloads non-null and
  aligned, enough memory), the drain by \<open>pop()\<close> returns the payloads of the inserted
  pairs in an order in which their keys are weakly decreasing.
\<close>

theorem sorted_drain:
  assumes "supply_ok blocks" "length xs + 2 \<le> length blocks" "payloads_ok xs"
    "2 * length xs + 7 \<le> n"
  shows "(\<exists>s. insert_then_drain blocks n xs = Inr (map snd (insert_entries [] xs), s))
    \<and> sorted_wrt (\<ge>) (map fst (insert_entries [] xs))
    \<and> mset (insert_entries [] xs) = mset (map (\<lambda>(v, k). (k, v)) xs)"
  using insert_then_drain_refines [OF assms(1,2) _ assms(4)] insert_entries_props(1,2) [of xs]
    assms(3)
  by (simp add: payloads_ok_def)

theorem sorted_drain_witness:
  "supply_ok example_supply
   \<and> length [(4096 :: ptr, 3 :: int), (8192, 1), (12288, 5)] + 2 \<le> length example_supply
   \<and> payloads_ok [(4096, 3), (8192, 1), (12288, 5)]
   \<and> (\<exists>s. insert_then_drain example_supply 13 [(4096, 3), (8192, 1), (12288, 5)]
         = Inr ([12288, 4096, 8192], s))"
proof -
  have p: "payloads_ok [(4096, 3), (8192, 1), (12288, 5)]"
    by (simp add: payloads_ok_def is_marked_def)
  have l: "length [(4096 :: ptr, 3 :: int), (8192, 1), (12288, 5)] + 2 \<le> length example_supply"
    by (simp add: example_supply_def)
  have e: "map snd (insert_entries [] [(4096 :: ptr, 3 :: int), (8192, 1), (12288, 5)])
      = [12288, 4096, 8192]"
    by (simp add: insert_entries_def abs_insert_def)
  from sorted_drain [OF example_supply_ok l p, of 13] show ?thesis
    using l by (simp add: example_supply_ok p e)
qed

lemma example_free_inv: "pq_inv example_free [] [96]"
  by (simp add: pq_inv_def example_free_def linked_def counted_def uncounted_def is_marked_def)

text \<open>
  C3. \<open>insert\<close> links the new entry behind every entry whose key is not below the new
  key, so behind every entry of the same key. Inserting \<open>(A, 5)\<close> and then \<open>(B, 5)\<close> into a
  new queue and draining returns \<open>A\<close> and then \<open>B\<close>, nothing else and nothing null.
\<close>

theorem insert_after_equal_keys:
  assumes "pq_inv s ps fs" "length ps + 6 \<le> n" "fs \<noteq> [] \<or> fresh s \<noteq> []"
    and "supply_ok blocks" "4 \<le> length blocks" "payloads_ok [(a, 5), (b, 5)]" "11 \<le> m"
  shows "(\<exists>s' ps' fs' pre post. insert_pq n v k s = Inr ((), s') \<and> pq_inv s' ps' fs'
      \<and> entries s ps = pre @ post \<and> entries s' ps' = pre @ (k, v) # post
      \<and> (\<forall>e \<in> set pre. k \<le> fst e) \<and> (\<forall>e \<in> set post. fst e < k))
    \<and> (\<exists>s'. insert_then_drain blocks m [(a, 5), (b, 5)] = Inr ([a, b], s'))"
proof -
  from insert_refines_supply [OF assms(1,2,3), of v k] obtain s' ps' fs' where
    r: "insert_pq n v k s = Inr ((), s')" "pq_inv s' ps' fs'"
    "entries s' ps' = abs_insert k v (entries s ps)"
    by blast
  let ?pre = "takeWhile (\<lambda>e. k \<le> fst e) (entries s ps)"
  let ?post = "dropWhile (\<lambda>e. k \<le> fst e) (entries s ps)"
  have "entries s ps = ?pre @ ?post" "entries s' ps' = ?pre @ (k, v) # ?post"
    by (simp_all add: r(3) abs_insert_def)
  moreover have "\<forall>e \<in> set ?pre. k \<le> fst e"
    by (auto dest: set_takeWhileD)
  moreover have "\<forall>e \<in> set ?post. fst e < k"
    using sorted_dropWhile_below [OF inv_sorted_entries [OF assms(1)], of _ k] by blast
  ultimately have 1: "\<exists>s' ps' fs' pre post. insert_pq n v k s = Inr ((), s') \<and> pq_inv s' ps' fs'
      \<and> entries s ps = pre @ post \<and> entries s' ps' = pre @ (k, v) # post
      \<and> (\<forall>e \<in> set pre. k \<le> fst e) \<and> (\<forall>e \<in> set post. fst e < k)"
    using r(1,2) by blast
  have "map snd (insert_entries [] [(a, 5), (b, 5)]) = [a, b]"
    by (simp add: insert_entries_def abs_insert_def)
  with insert_then_drain_refines [OF assms(4), of "[(a, 5), (b, 5)]" m] assms(5,6,7)
  have "\<exists>s'. insert_then_drain blocks m [(a, 5), (b, 5)] = Inr ([a, b], s')"
    by (simp add: payloads_ok_def)
  with 1 show ?thesis
    by blast
qed

theorem insert_after_equal_keys_witness:
  "pq_inv example_one [96] [] \<and> entries example_one [96] = [(5, 4096)]
   \<and> supply_ok example_supply \<and> payloads_ok [(4096, 5), (8192, 5)]
   \<and> (\<exists>s' ps' fs'. insert_pq 7 8192 5 example_one = Inr ((), s') \<and> pq_inv s' ps' fs'
        \<and> entries s' ps' = [(5, 4096), (5, 8192)])
   \<and> (\<exists>s'. insert_then_drain example_supply 11 [(4096, 5), (8192, 5)] = Inr ([4096, 8192], s'))"
proof -
  have p: "payloads_ok [(4096, 5), (8192, 5)]"
    by (simp add: payloads_ok_def is_marked_def)
  have l: "4 \<le> length example_supply" "fresh example_one \<noteq> []"
    by (simp_all add: example_supply_def example_one_def)
  from insert_after_equal_keys [OF example_one_inv _ _ example_supply_ok l(1) p, of 7 11 8192 5]
  obtain s' ps' fs' pre post where
    r: "insert_pq 7 8192 5 example_one = Inr ((), s')" "pq_inv s' ps' fs'"
      "entries example_one [96] = pre @ post" "entries s' ps' = pre @ (5, 8192) # post"
      "\<forall>e \<in> set pre. 5 \<le> fst e" "\<forall>e \<in> set post. fst e < 5"
    and d: "\<exists>s'. insert_then_drain example_supply 11 [(4096, 5), (8192, 5)]
      = Inr ([4096, 8192], s')"
    using l(2) by auto
  from r(3,5,6) have "pre = [(5, 4096)] \<and> post = []"
    unfolding example_one_entries by (cases pre) auto
  with r(4) have "entries s' ps' = [(5, 4096), (5, 8192)]"
    by simp
  with r(1,2) d show ?thesis
    using example_one_inv example_one_entries example_supply_ok p by blast
qed

text \<open>
  C10. In a quiescent state, \<open>get_new_node\<close> returns a node whose counter is 1 when the
  free list is empty and the node is newly allocated, and a node whose counter went from 0
  to 2 when it comes from the free list; key and value are the ones given.
\<close>

theorem get_new_node_counter:
  assumes "pq_inv s ps fs" "2 \<le> n"
  shows "(fs = [] \<longrightarrow> (\<forall>p raw rest. fresh s = (p, raw) # rest \<longrightarrow>
        (\<exists>s'. get_new_node n v k s = Inr (p, s')
          \<and> heap s' p = Some \<lparr>key = k, counter = 1, val = v, nxt = 0\<rparr>)))
    \<and> (\<forall>f fs'. fs = f # fs' \<longrightarrow>
        (\<exists>s'. get_new_node n v k s = Inr (f, s') \<and> counter_of s f = 0
          \<and> counter_of s' f = 2 \<and> key_of s' f = k \<and> val_of s' f = v))"
proof (intro conjI impI allI)
  fix p raw rest
  assume "fs = []" "fresh s = (p, raw) # rest"
  with assms have "get_new_node n v k s = Inr (p, allocated p v k s)"
    by (intro get_new_node_fresh) auto
  then show "\<exists>s'. get_new_node n v k s = Inr (p, s')
      \<and> heap s' p = Some \<lparr>key = k, counter = 1, val = v, nxt = 0\<rparr>"
    by (simp add: allocated_def)
next
  fix f fs'
  assume fs: "fs = f # fs'"
  note f = inv_free [OF assms(1) [unfolded fs]]
  from assms fs have "get_new_node n v k s = Inr (f, recycled f v k s)"
    by (intro get_new_node_recycle) auto
  with f show "\<exists>s'. get_new_node n v k s = Inr (f, s') \<and> counter_of s f = 0
      \<and> counter_of s' f = 2 \<and> key_of s' f = k \<and> val_of s' f = v"
    by simp
qed

theorem get_new_node_counter_witness:
  "pq_inv example_empty [] [] \<and> pq_inv example_free [] [96]
   \<and> (\<exists>s'. get_new_node 2 4096 7 example_empty = Inr (96, s')
        \<and> heap s' 96 = Some \<lparr>key = 7, counter = 1, val = 4096, nxt = 0\<rparr>)
   \<and> (\<exists>s'. get_new_node 2 4096 7 example_free = Inr (96, s') \<and> counter_of example_free 96 = 0
        \<and> counter_of s' 96 = 2 \<and> key_of s' 96 = 7 \<and> val_of s' 96 = 4096)"
proof -
  have "fresh example_empty = (96, zero_node) # map (\<lambda>p. (p, zero_node)) [128, 160, 192]"
    by (simp add: example_empty_def)
  with get_new_node_counter [OF example_empty_inv, of 2 4096 7]
    get_new_node_counter [OF example_free_inv, of 2 4096 7]
  show ?thesis
    using example_empty_inv example_free_inv by simp
qed

text \<open>
  C4, at an input where it fails. \<open>reserve(3)\<close> whose uninitialised loop variable happens
  to hold 5 allocates nothing and leaves the free list as it was.
\<close>

theorem reserve_uninitialised_counter: "reserve (Suc n) 5 3 s = Inr ((), s)"
  by (simp add: reserve.simps)

subsection \<open>Where \<open>read_next\<close> and the loops of \<open>pop\<close> can end\<close>

lemma bnd_eq_Inr: "bnd r f = Inr y \<longleftrightarrow> (\<exists>x s. r = Inr (x, s) \<and> f x s = Inr y)"
  by (cases r) (auto simp: bnd_def)

lemma read_next_loop_nonnull:
  "read_next_loop n p q s = Inr (r, s') \<Longrightarrow> r \<noteq> 0"
proof (induction n arbitrary: p q s)
  case 0
  then show ?case by (simp add: read_next_loop.simps)
next
  case (Suc n)
  show ?case
  proof (cases "q = 0")
    case True
    with Suc.prems obtain p' q' t where "read_next_loop n p' q' t = Inr (r, s')"
      by (auto simp: read_next_loop.simps bnd_eq_Inr)
    then show ?thesis
      by (rule Suc.IH)
  next
    case False
    with Suc.prems show ?thesis
      by (simp add: read_next_loop.simps)
  qed
qed

lemma read_next_nonnull: "read_next n p s = Inr (r, s') \<Longrightarrow> r \<noteq> 0"
  by (cases n) (auto simp: read_next.simps bnd_eq_Inr dest: read_next_loop_nonnull)

lemma pop_loop_returns: "pop_loop n s = Inr (r, s') \<Longrightarrow> r \<noteq> None"
proof (induction n arbitrary: s)
  case 0
  then show ?case by (simp add: pop_loop.simps)
next
  case (Suc n)
  from Suc.prems obtain h t q u where
    rn: "read_next n h t = Inr (q, u)" and
    rest: "(if q = 0 then Inr (None, u)
       else if q = tail u then
         bnd (release n q u) (\<lambda>_ s. Inr (Some 0, s))
       else
         bnd (load (Value q) u) (\<lambda>v s.
           let ret = get_unmarked v in
           bnd (compare_exchange (Value q) ret (get_marked ret) s) (\<lambda>(ok, cxw) s.
             if ok then bnd (release n q s) (\<lambda>_ s. Inr (Some ret, s))
             else
               bnd (help_delete n q s) (\<lambda>prev s.
               bnd (release n prev s) (\<lambda>_ s.
               bnd (release n q s) (\<lambda>_ s.
                 pop_loop n s)))))) = Inr (r, s')"
    unfolding pop_loop.simps bnd_eq_Inr by blast
  from read_next_nonnull [OF rn] rest show ?case
    by (auto simp: bnd_eq_Inr Let_def split: if_splits dest: Suc.IH)
qed

text \<open>\<open>read_next\<close> of the tail sentinel marks the sentinel's null link and restarts from the head.\<close>

lemma read_next_tail:
  assumes "pq_inv s ps fs" "5 \<le> n"
  shows "read_next n (tail s) s
    = Inr (hd (ps @ [tail s]), adj (hd (ps @ [tail s])) 1 (set_nxt (tail s) 1 s))"
proof -
  from assms(2) obtain m where n: "n = Suc (Suc (Suc m))" "2 \<le> m"
    by (cases n; simp; cases "n - 1"; simp; cases "n - 2"; simp)
  have inv0: "pq_inv s ([] @ ps) fs"
    using assms(1) by simp
  note t = inv_node [OF assms(1), of "tail s"] and h = inv_node [OF assms(1), of "head s"]
    and x = inv_node [OF inv0 inv_last(2) [OF inv0]]
  have th: "tail s \<noteq> head s"
    using pq_invD(1) [OF assms(1)] by auto
  have m: "mark_link m (tail s) s = Inr (0, set_nxt (tail s) 1 s)"
    using mark_link_ok [of m s "tail s"] t inv_tail_next [OF assms(1)] n(2)
    by (simp add: is_marked_def get_marked_def)
  have hd: "help_delete (Suc m) (tail s) s
      = Inr (head s, adj (head s) 1 (set_nxt (tail s) 1 s))"
    using m h n(2) by (simp add: help_delete.simps safe_read_some)
  show ?thesis
    using t h x th hd n(2) inv_tail_next [OF assms(1)] inv_head_next [OF assms(1)]
      count_offsets [OF h(4)] inv_last(3) [OF inv0]
    by (simp add: n(1) read_next.simps safe_read_null read_next_loop.simps
        safe_read_some release_keep)
qed

lemma inv_next_in:
  assumes "pq_inv s ps fs" "p \<in> set (head s # ps)"
  shows "nxt_of s p \<in> set (ps @ [tail s])"
proof (cases "p = head s")
  case True
  then show ?thesis
    using inv_head_next [OF assms(1)] by (cases ps) auto
next
  case False
  with assms(2) obtain xs ys where ps: "ps = xs @ p # ys"
    by (auto dest: split_list)
  from inv_mid(1) [OF assms(1) [unfolded ps]] show ?thesis
    unfolding ps by (cases ys) auto
qed

text \<open>
  C8, for the code that can be called. In a quiescent state \<open>read_next\<close> of a node from
  which the tail is reachable (the head, a node of the list, the tail itself) returns, and
  what it returns is not null; in any state at all, \<open>read_next\<close> can only return a pointer
  that is not null. So a loop guarded by \<open>ret_node = read_next( head )\<close> never ends through
  its condition: every result of \<open>pop()\<close> comes from a \<open>return\<close> inside the loop, and
  \<open>pop()\<close> returns in every quiescent state.
\<close>

theorem read_next_never_null:
  assumes "pq_inv s ps fs" "p \<in> set (head s # ps @ [tail s])" "length ps + 6 \<le> n"
  shows "(\<exists>q s'. read_next n p s = Inr (q, s') \<and> q \<noteq> 0)
    \<and> (\<forall>m p' t q t'. read_next m p' t = Inr (q, t') \<longrightarrow> q \<noteq> 0)
    \<and> (\<forall>m t r t'. pop_loop m t = Inr (r, t') \<longrightarrow> r \<noteq> None)
    \<and> (\<exists>r s'. pop_loop n s = Inr (Some r, s'))"
proof -
  have 1: "\<exists>q s'. read_next n p s = Inr (q, s') \<and> q \<noteq> 0"
  proof (cases "p = tail s")
    case True
    have "hd (ps @ [tail s]) \<in> set (head s # ps @ [tail s])"
      by (cases ps) auto
    from inv_node(2) [OF assms(1) this] read_next_tail [OF assms(1), of n] assms(3) True
    show ?thesis
      by simp
  next
    case False
    with assms(2) have p: "p \<in> set (head s # ps)"
      by auto
    from inv_next_in [OF assms(1) this] have "nxt_of s p \<in> set (head s # ps @ [tail s])"
      by auto
    from inv_node [OF assms(1) this] inv_node(1) [OF assms(1) assms(2)] assms(3)
      read_next_some [of n s p]
    show ?thesis
      by simp
  qed
  from pop_refines [OF assms(1,3)] obtain r s' where "pop n s = Inr (r, s')"
    by blast
  then obtain x where "pop_loop n s = Inr (x, s')"
    by (auto simp: pop_def bnd_eq_Inr split: option.splits)
  with pop_loop_returns [OF this] have 2: "\<exists>r s'. pop_loop n s = Inr (Some r, s')"
    by auto
  from 1 2 show ?thesis
    by (auto dest: read_next_nonnull pop_loop_returns)
qed

theorem read_next_never_null_witness:
  "pq_inv example_one [96] []
   \<and> (\<exists>q s'. read_next 7 96 example_one = Inr (q, s') \<and> q \<noteq> 0)
   \<and> (\<exists>q s'. read_next 7 (tail example_one) example_one = Inr (q, s') \<and> q \<noteq> 0)
   \<and> (\<exists>r s'. pop_loop 7 example_one = Inr (Some r, s'))"
  using read_next_never_null [OF example_one_inv, of 96 7]
    read_next_never_null [OF example_one_inv, of "tail example_one" 7] example_one_inv
  by simp

subsection \<open>\<open>help_delete\<close> of a node that is no longer in the list\<close>




lemma get_unmarked_get_marked: "get_unmarked (get_marked v) = get_unmarked v"
  by (rule bit_eqI) (auto simp: get_marked_bit get_unmarked_bit)










subsection \<open>A larger bound does not change a result\<close>





















lemma allocated0_fields [simp]:
  "head (allocated0 p raw s) = head s" "tail (allocated0 p raw s) = tail s"
  "free_list (allocated0 p raw s) = free_list s" "fresh (allocated0 p raw s) = tl (fresh s)"
  "(heap (allocated0 p raw s) q = None) = (q \<noteq> p \<and> heap s q = None)"
  "nxt_of (allocated0 p raw s) q = (if q = p then 0 else nxt_of s q)"
  "key_of (allocated0 p raw s) q = (if q = p then key raw else key_of s q)"
  "counter_of (allocated0 p raw s) q = (if q = p then 1 else counter_of s q)"
  by (simp_all add: allocated0_def nxt_of_def key_of_def val_of_def counter_of_def)

lemma pushed_free_fields [simp]:
  "head (pushed_free p s) = head s" "tail (pushed_free p s) = tail s"
  "free_list (pushed_free p s) = p" "fresh (pushed_free p s) = fresh s"
  "(heap (pushed_free p s) q = None) = (heap s q = None)"
  "nxt_of (pushed_free p s) q = (if q = p \<and> heap s p \<noteq> None then free_list s else nxt_of s q)"
  "key_of (pushed_free p s) q = key_of s q"
  "counter_of (pushed_free p s) q
     = (if q = p \<and> heap s p \<noteq> None then counter_of s p - 1 else counter_of s q)"
  by (simp_all add: pushed_free_def)

subsection \<open>\<open>reserve\<close> keeps the invariant\<close>


lemma new_Node0_run:
  "fresh s = (p, raw) # rest \<Longrightarrow> new_Node0 s = Inr (p, allocated0 p raw s)"
  by (simp add: new_Node0_def allocated0_def)






subsection \<open>The list invariant in reachable states\<close>
















end
